theory Spec2Isabelle
  imports Complex_Main "HOL-Library.Word" "HOL-Library.Sublist"
begin

section \<open>JavaScript strings\<close>

text \<open>
  A JavaScript string is a sequence of 16-bit code units. The files the program reads
  are decoded from UTF-8 by \<^verbatim>\<open>fs.readFile(_, 'utf-8')\<close> and the text it appends is
  encoded again by \<^verbatim>\<open>fs.appendFile\<close>; the model works on the decoded text, on both
  sides of the file system.
\<close>

type_synonym jschar = "16 word"
type_synonym jsstring = "jschar list"

definition js :: "string \<Rightarrow> jsstring" where
  \<comment> \<open>an ASCII literal of the source as code units\<close>
  "js s = map (\<lambda>c. of_nat (of_char c)) s"

definition LF :: jschar where "LF = 0x0A"
definition CR :: jschar where "CR = 0x0D"

definition isWhiteSpace :: "jschar \<Rightarrow> bool" where
  \<comment> \<open>ECMAScript WhiteSpace and LineTerminator, the code units that
      \<^verbatim>\<open>String.prototype.trim\<close> and \<^verbatim>\<open>parseInt\<close> strip\<close>
  "isWhiteSpace c \<longleftrightarrow>
     c = 0x09 \<or> c = 0x0A \<or> c = 0x0B \<or> c = 0x0C \<or> c = 0x0D \<or> c = 0x20 \<or> c = 0xA0
     \<or> c = 0x1680 \<or> (0x2000 \<le> c \<and> c \<le> 0x200A) \<or> c = 0x2028 \<or> c = 0x2029
     \<or> c = 0x202F \<or> c = 0x205F \<or> c = 0x3000 \<or> c = 0xFEFF"

definition trim :: "jsstring \<Rightarrow> jsstring" where
  "trim s = rev (dropWhile isWhiteSpace (rev (dropWhile isWhiteSpace s)))"

definition USERNAME_NOT_FOUND_MESSAGE :: jsstring where
  "USERNAME_NOT_FOUND_MESSAGE = js ''Not Found!''"


section \<open>The check protocol\<close>

text \<open>
  What the remote service shows for one username, as far as the program observes it:
  \<^verbatim>\<open>page.goto\<close> throws (navigation error, or the 30000 ms timeout), or the page loads
  and \<^verbatim>\<open>page.evaluate\<close> throws, or the page loads and the evaluated function sees
  the node \<^verbatim>\<open>#serveralert\<close> absent (\<open>None\<close>) or present with some text content.
  The answers of the service within a run are taken to depend on the username only.
\<close>

datatype page = NavigationError | NavigationTimeout | EvaluationError | Loaded "jsstring option"

type_synonym site = "jsstring \<Rightarrow> page"

datatype error = GotoFailed | GotoTimedOut | EvaluateFailed
  | ConnectFailed | NewPageFailed | CloseFailed | DisconnectFailed

datatype jsvalue = JNull | JBool bool

fun truthy :: "jsvalue \<Rightarrow> bool" where
  "truthy JNull = False"
| "truthy (JBool b) = b"

definition evaluate :: "jsstring option \<Rightarrow> jsstring \<Rightarrow> jsvalue" where
  \<comment> \<open>\<^verbatim>\<open>serverAlert && serverAlert.textContent.trim() === msg\<close>, where
      \<^verbatim>\<open>querySelector\<close> gives null for an absent node\<close>
  "evaluate serverAlert msg =
     (case serverAlert of None \<Rightarrow> JNull | Some textContent \<Rightarrow> JBool (trim textContent = msg))"

definition checkProtocol :: "site \<Rightarrow> jsstring \<Rightarrow> error + jsvalue" where
  \<comment> \<open>the two awaited calls inside the inner \<^verbatim>\<open>try\<close> of the worker loop\<close>
  "checkProtocol s username =
     (case s username of
        NavigationError \<Rightarrow> Inl GotoFailed
      | NavigationTimeout \<Rightarrow> Inl GotoTimedOut
      | EvaluationError \<Rightarrow> Inl EvaluateFailed
      | Loaded serverAlert \<Rightarrow> Inr (evaluate serverAlert USERNAME_NOT_FOUND_MESSAGE))"

text \<open>
  The three ways through one iteration of the loop body: the \<^verbatim>\<open>if (isAvailable)\<close>
  branch that pushes the username, the fall-through that does not, and the
  \<^verbatim>\<open>catch\<close> branch that swallows the failure.
\<close>

datatype classification = Available | Unavailable | Indeterminate

definition checkOne :: "site \<Rightarrow> jsstring \<Rightarrow> classification" where
  "checkOne s username =
     (case checkProtocol s username of
        Inl e \<Rightarrow> Indeterminate
      | Inr isAvailable \<Rightarrow> if truthy isAvailable then Available else Unavailable)"

section \<open>The worker thread\<close>

fun checkLoop :: "site \<Rightarrow> jsstring list \<Rightarrow> jsstring list \<Rightarrow> jsstring list" where
  \<comment> \<open>\<^verbatim>\<open>for (const username of usernamesToCheck)\<close>, threading \<^verbatim>\<open>availableUsernames\<close>\<close>
  "checkLoop s [] availableUsernames = availableUsernames"
| "checkLoop s (username # rest) availableUsernames =
     (case checkOne s username of
        Available \<Rightarrow> checkLoop s rest (availableUsernames @ [username])
      | Unavailable \<Rightarrow> checkLoop s rest availableUsernames
      | Indeterminate \<Rightarrow> checkLoop s rest availableUsernames)"

text \<open>
  The browser as one worker meets it: whether \<^verbatim>\<open>puppeteer.connect\<close>,
  \<^verbatim>\<open>browser.newPage\<close>, \<^verbatim>\<open>page.close\<close> and \<^verbatim>\<open>browser.disconnect\<close> return or
  throw, and what the service answers.
\<close>

record browser =
  connectOk :: bool
  newPageOk :: bool
  answers :: site
  closeOk :: bool
  disconnectOk :: bool

definition tryBlock :: "browser \<Rightarrow> jsstring list \<Rightarrow> (error + unit) \<times> jsstring list" where
  \<comment> \<open>the outer \<^verbatim>\<open>try\<close>: how it ends, and \<^verbatim>\<open>availableUsernames\<close> at that point\<close>
  "tryBlock b usernamesToCheck =
     (if \<not> connectOk b then (Inl ConnectFailed, [])
      else if \<not> newPageOk b then (Inl NewPageFailed, [])
      else let availableUsernames = checkLoop (answers b) usernamesToCheck []
           in (if closeOk b then Inr () else Inl CloseFailed, availableUsernames))"

definition workerCheckAvailability :: "browser \<Rightarrow> jsstring list \<Rightarrow> error + jsstring list" where
  \<comment> \<open>\<open>Inl\<close>: the returned promise rejects; \<open>Inr\<close>: it resolves with the list. The
      \<^verbatim>\<open>catch\<close> only logs; the \<^verbatim>\<open>finally\<close> disconnects when \<^verbatim>\<open>browser\<close> is set, that
      is when the connect succeeded, and a throw there leaves the function.\<close>
  "workerCheckAvailability b usernamesToCheck =
     (let availableUsernames = snd (tryBlock b usernamesToCheck)
      in if connectOk b \<and> \<not> disconnectOk b then Inl DisconnectFailed
         else Inr availableUsernames)"

datatype event = Message "jsstring list" | Error | Exit int

definition workerThread :: "browser \<Rightarrow> jsstring list \<Rightarrow> event list" where
  \<comment> \<open>the \<^verbatim>\<open>!isMainThread\<close> block: what the parent receives from a thread that runs it
      to the end\<close>
  "workerThread b usernamesToCheck =
     [Message (case workerCheckAvailability b usernamesToCheck of
                 Inr availableUsernames \<Rightarrow> availableUsernames
               | Inl err \<Rightarrow> []),
      Exit 0]"

section \<open>Reading the two files\<close>

fun splitLines :: "jsstring \<Rightarrow> jsstring list" where
  \<comment> \<open>\<^verbatim>\<open>split(/\r?\n/)\<close>: a separator is a line feed, with the carriage return just
      before it when there is one\<close>
  "splitLines [] = [[]]"
| "splitLines (c # cs) =
     (if c = LF then [] # splitLines cs
      else if c = CR \<and> take 1 cs = [LF] then [] # splitLines (drop 1 cs)
      else (case splitLines cs of
              [] \<Rightarrow> [[c]]
            | line # lines \<Rightarrow> (c # line) # lines))"

definition readUsernames :: "jsstring \<Rightarrow> jsstring list" where
  \<comment> \<open>\<^verbatim>\<open>.split(/\r?\n/).map(u => u.trim()).filter(Boolean)\<close>\<close>
  "readUsernames content = filter (\<lambda>u. u \<noteq> []) (map trim (splitLines content))"

definition loadExisting :: "jsstring \<Rightarrow> jsstring set" where
  \<comment> \<open>the \<^verbatim>\<open>forEach\<close> that fills \<^verbatim>\<open>existingAvailableUsernames\<close>; of the Set only
      \<^verbatim>\<open>has\<close> is used afterwards\<close>
  "loadExisting existingContent =
     {trimmed. trimmed \<in> set (map trim (splitLines existingContent)) \<and> trimmed \<noteq> []}"

section \<open>The worker count\<close>

text \<open>
  The worker count is a JavaScript number, a double: NaN, an infinity, or (here) a finite
  double with an integer value, kept as that integer. Integers are exact in a double up
  to \<open>2^53\<close>. \<^verbatim>\<open>parseInt\<close> rounds a longer digit string to the nearest double, ties
  to even, and gives an infinity for a digit string beyond the range of doubles. (The
  language lets an engine put zeros for the digits after the twentieth before it rounds;
  the model rounds the digits as they stand.)
\<close>

datatype jsnum = NaN | Num int | PosInfinity | NegInfinity

definition isDigit :: "jschar \<Rightarrow> bool" where
  "isDigit c \<longleftrightarrow> 0x30 \<le> c \<and> c \<le> 0x39"

definition digitsValue :: "jsstring \<Rightarrow> int" where
  "digitsValue z = foldl (\<lambda>a c. 10 * a + (uint c - 48)) 0 z"

function bitLength :: "int \<Rightarrow> int" where
  \<comment> \<open>the number of binary digits of a natural number\<close>
  "bitLength m = (if m \<le> 0 then 0 else 1 + bitLength (m div 2))"
  by pat_completeness auto
termination
  by (relation "measure nat") auto

definition roundToDouble :: "int \<Rightarrow> int option" where
  \<comment> \<open>the double nearest to a natural number: 53 significant bits, a tie goes to the
      even significand; \<open>None\<close> when the result is beyond the largest double\<close>
  "roundToDouble m =
     (if m < 2 ^ 53 then Some m
      else let ulp = 2 ^ nat (bitLength m - 53);
               q = m div ulp;
               r = m mod ulp;
               q' = (if ulp < 2 * r \<or> (2 * r = ulp \<and> q mod 2 = 1) then q + 1 else q);
               v = q' * ulp
           in if 2 ^ 1024 \<le> v then None else Some v)"

definition toNumber :: "bool \<Rightarrow> int \<Rightarrow> jsnum" where
  "toNumber negative m =
     (case roundToDouble m of
        None \<Rightarrow> if negative then NegInfinity else PosInfinity
      | Some v \<Rightarrow> Num (if negative then - v else v))"

definition parseInt :: "jsstring \<Rightarrow> jsnum" where
  \<comment> \<open>\<^verbatim>\<open>parseInt(s, 10)\<close>: leading white space, one optional sign, then the longest
      run of decimal digits; NaN when that run is empty, else its value as a double\<close>
  "parseInt s =
     (let t = dropWhile isWhiteSpace s;
          negative = (take 1 t = [0x2D]);
          u = (if take 1 t = [0x2D] \<or> take 1 t = [0x2B] then drop 1 t else t);
          z = takeWhile isDigit u
      in if z = [] then NaN else toNumber negative (digitsValue z))"

section \<open>Distribution of the usernames\<close>

definition usernamesPerWorker :: "nat \<Rightarrow> jsnum \<Rightarrow> nat" where
  \<comment> \<open>\<^verbatim>\<open>Math.ceil(totalUsernames / numWorkers)\<close> where the loop reads it, that is for a
      worker count of at least 1. For a finite count the quotient of an array length
      (below \<open>2^32\<close>) by an integer-valued double has the ceiling of the exact quotient;
      for an infinite count the quotient is 0.\<close>
  "usernamesPerWorker totalUsernames numWorkers =
     (case numWorkers of
        Num n \<Rightarrow> nat ((int totalUsernames + n - 1) div n)
      | PosInfinity \<Rightarrow> 0
      | NegInfinity \<Rightarrow> 0
      | NaN \<Rightarrow> 0)"

definition arraySlice :: "'a list \<Rightarrow> nat \<Rightarrow> nat \<Rightarrow> 'a list" where
  \<comment> \<open>\<^verbatim>\<open>Array.prototype.slice(start, end)\<close> for \<open>0 \<le> start \<le> end\<close>\<close>
  "arraySlice xs start end = take (end - start) (drop start xs)"

definition loopEnds :: "jsnum \<Rightarrow> bool" where
  \<comment> \<open>whether \<^verbatim>\<open>for (let i = 0; i < numWorkers; i++)\<close> ends: \<^verbatim>\<open>i++\<close> counts exactly up
      to \<open>2^53\<close> and leaves \<open>i\<close> there, \<open>2^53 + 1\<close> being rounded back to \<open>2^53\<close>\<close>
  "loopEnds numWorkers =
     (case numWorkers of
        NaN \<Rightarrow> True
      | Num n \<Rightarrow> n \<le> 2 ^ 53
      | PosInfinity \<Rightarrow> False
      | NegInfinity \<Rightarrow> True)"

definition counterValues :: "jsnum \<Rightarrow> nat list" where
  \<comment> \<open>the values \<open>i\<close> takes in the loop body, each listed once. The test
      \<^verbatim>\<open>i < numWorkers\<close> is false at once for NaN and for a count below 1.\<close>
  "counterValues numWorkers =
     (case numWorkers of
        NaN \<Rightarrow> []
      | Num n \<Rightarrow> if n \<le> 2 ^ 53 then [0..<nat n] else [0..<Suc (2 ^ 53)]
      | PosInfinity \<Rightarrow> [0..<Suc (2 ^ 53)]
      | NegInfinity \<Rightarrow> [])"

definition distribute :: "'a list \<Rightarrow> jsnum \<Rightarrow> 'a list list" where
  \<comment> \<open>the body of the loop: the chunks that get a \<^verbatim>\<open>new Worker\<close>, in spawning order\<close>
  "distribute usernamesToCheck numWorkers =
     (let per = usernamesPerWorker (length usernamesToCheck) numWorkers
      in filter (\<lambda>usernamesChunk. length usernamesChunk > 0)
           (map (\<lambda>i. arraySlice usernamesToCheck (i * per) (i * per + per))
                (counterValues numWorkers)))"

section \<open>The join\<close>

text \<open>
  The state of one worker's promise while the await is pending. The first rejection ends
  the await, so a rejected promise is never looked at again and has no state here.
\<close>

datatype promise = Pending | Resolved

datatype outcome = AllResolved "jsstring list" | FirstRejected | NeverSettled

definition resolve :: "nat \<Rightarrow> promise list \<Rightarrow> promise list" where
  \<comment> \<open>settling a promise a second time does nothing\<close>
  "resolve i ps = (if i < length ps \<and> ps ! i = Pending then ps[i := Resolved] else ps)"

fun joinLoop :: "promise list \<Rightarrow> jsstring list \<Rightarrow> (nat \<times> event) list
    \<Rightarrow> outcome \<times> (nat \<times> event) list" where
  \<comment> \<open>\<^verbatim>\<open>await Promise.all(workerPromises)\<close> over the events in the order the main
      thread receives them: the three handlers of each worker, the list
      \<^verbatim>\<open>newlyAvailableUsernames\<close>, and the events not yet delivered when the await
      settles. \<^verbatim>\<open>Promise.all\<close> fulfils when every promise is resolved and rejects with
      the first rejection.\<close>
  "joinLoop ps newly evs =
     (if list_all (\<lambda>p. p = Resolved) ps then (AllResolved newly, evs)
      else case evs of
             [] \<Rightarrow> (NeverSettled, [])
           | (i, Message availableUsernames) # rest \<Rightarrow>
               joinLoop (resolve i ps) (newly @ availableUsernames) rest
           | (i, Error) # rest \<Rightarrow>
               if i < length ps \<and> ps ! i = Pending then (FirstRejected, rest)
               else joinLoop ps newly rest
           | (i, Exit code) # rest \<Rightarrow> joinLoop (resolve i ps) newly rest)"

definition joinAll :: "nat \<Rightarrow> (nat \<times> event) list \<Rightarrow> outcome \<times> (nat \<times> event) list" where
  "joinAll n evs = joinLoop (replicate n Pending) [] evs"

section \<open>The main thread\<close>

text \<open>
  What a worker thread does, seen from the main thread: it runs the worker block to the
  end, or it dies on an uncaught exception (\<^verbatim>\<open>'error'\<close>, then \<^verbatim>\<open>'exit'\<close> with
  code 1), or it exits with some code without having posted a message.
\<close>

datatype fate = Runs browser | Throws | Exits int

fun eventsOf :: "fate \<Rightarrow> jsstring list \<Rightarrow> event list" where
  "eventsOf (Runs b) usernamesChunk = workerThread b usernamesChunk"
| "eventsOf Throws usernamesChunk = [Error, Exit 1]"
| "eventsOf (Exits code) usernamesChunk = [Exit code]"

definition deliveries :: "(nat \<Rightarrow> fate) \<Rightarrow> jsstring list list \<Rightarrow> nat list \<Rightarrow> (nat \<times> event) list" where
  \<comment> \<open>the events the main thread receives: the spawned workers finish in the given
      order (a repeated or unknown index counts for nothing, a worker left out never
      finishes)\<close>
  "deliveries workers chunks finishing =
     concat (map (\<lambda>i. map (Pair i) (eventsOf (workers i) (chunks ! i)))
                 (remdups (filter (\<lambda>i. i < length chunks) finishing)))"

fun newSet :: "'a list \<Rightarrow> 'a list \<Rightarrow> 'a list" where
  \<comment> \<open>\<^verbatim>\<open>[...new Set(xs)]\<close>: insertion order, the first occurrence of each element\<close>
  "newSet seen [] = seen"
| "newSet seen (x # xs) = newSet (if x \<in> set seen then seen else seen @ [x]) xs"

fun joinWith :: "'a list \<Rightarrow> 'a list list \<Rightarrow> 'a list" where
  \<comment> \<open>\<^verbatim>\<open>Array.prototype.join(sep)\<close>\<close>
  "joinWith sep [] = []"
| "joinWith sep [x] = x"
| "joinWith sep (x # y # ys) = x @ sep @ joinWith sep (y # ys)"

definition appendFile :: "jsstring option \<Rightarrow> jsstring \<Rightarrow> jsstring option" where
  \<comment> \<open>\<^verbatim>\<open>fs.appendFile\<close> creates the file when it does not exist\<close>
  "appendFile file data = (case file of None \<Rightarrow> Some data | Some old \<Rightarrow> Some (old @ data))"

text \<open>
  The surroundings of one run. \<open>inputFile\<close> is what reading \<^verbatim>\<open>process.argv[2]\<close>
  gives (\<open>None\<close>: the read throws); \<open>recordFile\<close> is the content of
  \<^verbatim>\<open>available_usernames.txt\<close> (\<open>None\<close>: it does not exist, the read fails with
  ENOENT) and \<open>recordReadable\<close> tells whether reading an existing one succeeds.
  \<^verbatim>\<open>browser.close()\<close> in the \<^verbatim>\<open>finally\<close> block is taken to return.

  The \<^verbatim>\<open>runMain\<close> of \<^verbatim>\<open>src/main.js\<close> is the same function without the step that reads
  the record file: it is the run in surroundings where \<open>recordReadable\<close> is false, the
  known set then being empty and the append going to whatever the file holds.
\<close>

record env =
  argv :: "jsstring list"
  cpus :: nat
  inputFile :: "jsstring option"
  recordFile :: "jsstring option"
  recordReadable :: bool
  launchOk :: bool
  workers :: "nat \<Rightarrow> fate"
  finishing :: "nat list"
  appendOk :: bool

text \<open>
  What a run leaves behind: the exit code of the process (\<open>None\<close>: it never exits),
  the record file, the chunks handed to a \<^verbatim>\<open>new Worker\<close>, and the usernames written
  to the record file.
\<close>

record result =
  exitCode :: "int option"
  recordAfter :: "jsstring option"
  spawned :: "jsstring list list"
  appended :: "jsstring list"

definition numWorkers :: "env \<Rightarrow> jsnum" where
  \<comment> \<open>\<^verbatim>\<open>process.argv[3] ? parseInt(process.argv[3], 10) : os.cpus().length\<close>; a missing
      argument is undefined and an empty one is the empty string, both falsy\<close>
  "numWorkers e =
     (if 3 < length (argv e) \<and> argv e ! 3 \<noteq> [] then parseInt (argv e ! 3)
      else Num (int (cpus e)))"

definition allUsernamesFromFile :: "env \<Rightarrow> jsstring list" where
  "allUsernamesFromFile e = (case inputFile e of None \<Rightarrow> [] | Some content \<Rightarrow> readUsernames content)"

definition existingAvailableUsernames :: "env \<Rightarrow> jsstring set" where
  \<comment> \<open>empty when the file is missing, and also when reading it fails otherwise: the
      \<^verbatim>\<open>catch\<close> logs and goes on\<close>
  "existingAvailableUsernames e =
     (case recordFile e of
        None \<Rightarrow> {}
      | Some existingContent \<Rightarrow> if recordReadable e then loadExisting existingContent else {})"

definition usernamesToCheck :: "env \<Rightarrow> jsstring list" where
  "usernamesToCheck e =
     filter (\<lambda>u. u \<notin> existingAvailableUsernames e) (allUsernamesFromFile e)"

definition stopped :: "env \<Rightarrow> int option \<Rightarrow> jsstring list list \<Rightarrow> result" where
  \<comment> \<open>a run that ends without writing\<close>
  "stopped e code chunks =
     \<lparr>exitCode = code, recordAfter = recordFile e, spawned = chunks, appended = []\<rparr>"

definition processResults :: "env \<Rightarrow> jsstring list list \<Rightarrow> jsstring list \<Rightarrow> result" where
  \<comment> \<open>the part after the await: dedup, append, and the \<^verbatim>\<open>catch\<close> around the write\<close>
  "processResults e chunks newlyAvailableUsernames =
     (if length newlyAvailableUsernames > 0 then
        let uniqueNewUsernames = newSet [] newlyAvailableUsernames
        in if appendOk e
           then \<lparr>exitCode = Some 0,
                 recordAfter = appendFile (recordFile e) (joinWith [LF] uniqueNewUsernames @ [LF]),
                 spawned = chunks, appended = uniqueNewUsernames\<rparr>
           else stopped e (Some 0) chunks
      else stopped e (Some 0) chunks)"

definition runMain :: "env \<Rightarrow> result" where
  \<comment> \<open>a loop that does not end keeps the main thread in it: the await is never reached,
      nothing is written and the process never exits\<close>
  "runMain e =
     (if length (argv e) < 3 then stopped e (Some 1) []
      else if inputFile e = None then stopped e (Some 1) []
      else if length (allUsernamesFromFile e) = 0 then stopped e (Some 0) []
      else if length (usernamesToCheck e) = 0 then stopped e (Some 0) []
      else if \<not> launchOk e then stopped e (Some 0) []
      else
        let chunks = distribute (usernamesToCheck e) (numWorkers e)
        in if \<not> loopEnds (numWorkers e) then stopped e None chunks
           else
             case fst (joinAll (length chunks) (deliveries (workers e) chunks (finishing e))) of
               AllResolved newlyAvailableUsernames \<Rightarrow>
                 processResults e chunks newlyAvailableUsernames
             | FirstRejected \<Rightarrow>
                 stopped e (if list_all (\<lambda>i. i \<in> set (finishing e)) [0..<length chunks]
                            then Some 0 else None) chunks
             | NeverSettled \<Rightarrow> stopped e None chunks)"

section \<open>Notions used to state the properties\<close>

fun messagesOf :: "(nat \<times> event) list \<Rightarrow> jsstring list" where
  \<comment> \<open>the reports carried by a sequence of events, concatenated in order\<close>
  "messagesOf [] = []"
| "messagesOf ((i, Message availableUsernames) # evs) = availableUsernames @ messagesOf evs"
| "messagesOf ((i, Error) # evs) = messagesOf evs"
| "messagesOf ((i, Exit code) # evs) = messagesOf evs"

definition content :: "jsstring option \<Rightarrow> jsstring" where
  \<comment> \<open>the text of a file, a missing file having none\<close>
  "content file = (case file of None \<Rightarrow> [] | Some c \<Rightarrow> c)"

definition wellTerminated :: "jsstring \<Rightarrow> bool" where
  \<comment> \<open>empty, or ending with a line feed: every record file the program itself wrote\<close>
  "wellTerminated c \<longleftrightarrow> c = [] \<or> last c = LF"

definition clean :: "jsstring \<Rightarrow> bool" where
  \<comment> \<open>a trimmed, non-empty piece of one line\<close>
  "clean u \<longleftrightarrow> u \<noteq> [] \<and> LF \<notin> set u \<and> \<not> isWhiteSpace (hd u) \<and> \<not> isWhiteSpace (last u)"

definition healthy :: "site \<Rightarrow> fate \<Rightarrow> bool" where
  \<comment> \<open>the thread runs to the end, its connection works, and the service answers \<open>s\<close>\<close>
  "healthy s f =
     (case f of
        Runs b \<Rightarrow> connectOk b \<and> newPageOk b \<and> disconnectOk b \<and> answers b = s
      | Throws \<Rightarrow> False
      | Exits code \<Rightarrow> False)"

definition sameAnswers :: "site \<Rightarrow> fate \<Rightarrow> bool" where
  \<comment> \<open>whatever happens to the thread, the service answers \<open>s\<close>\<close>
  "sameAnswers s f =
     (case f of Runs b \<Rightarrow> answers b = s | Throws \<Rightarrow> True | Exits code \<Rightarrow> True)"

definition everyWorkerFinishes :: "env \<Rightarrow> bool" where
  \<comment> \<open>every worker the run spawns is among those that finish\<close>
  "everyWorkerFinishes e =
     list_all (\<lambda>i. i \<in> set (finishing e))
       [0..<length (distribute (usernamesToCheck e) (numWorkers e))]"

definition rerun :: "env \<Rightarrow> env" where
  \<comment> \<open>the surroundings of a second run: the record file is what the first run left, and
      it can be read\<close>
  "rerun e = e\<lparr>recordFile := recordAfter (runMain e), recordReadable := True\<rparr>"

section \<open>Examples\<close>

definition exampleSite :: site where
  "exampleSite u =
     (if u = js ''carol'' then Loaded (Some (js '' Not Found!  ''))
      else if u = js ''eve'' then Loaded (Some (js ''Not Found!''))
      else if u = js ''dave'' then NavigationTimeout
      else if u = js ''alice'' then Loaded (Some (js ''Not Found''))
      else Loaded None)"

definition okBrowser :: "site \<Rightarrow> browser" where
  "okBrowser s =
     \<lparr>connectOk = True, newPageOk = True, answers = s, closeOk = True, disconnectOk = True\<rparr>"

definition exampleEnv :: env where
  "exampleEnv =
     \<lparr>argv = [js ''node'', js ''main.js'', js ''names.txt'', js ''2''],
      cpus = 4,
      inputFile = Some (js ''alice\<newline>bob\<newline>carol\<newline>dave\<newline>eve\<newline>''),
      recordFile = Some (js ''bob\<newline>''),
      recordReadable = True,
      launchOk = True,
      workers = (\<lambda>i. Runs (okBrowser exampleSite)),
      finishing = [1, 0],
      appendOk = True\<rparr>"

definition crashEnv :: env where
  \<comment> \<open>the first worker dies on an uncaught exception before the second one reports\<close>
  "crashEnv =
     exampleEnv\<lparr>workers := (\<lambda>i. if i = 0 then Throws else Runs (okBrowser exampleSite)),
                finishing := [0, 1]\<rparr>"

definition abnormalExit :: "(nat \<times> event) list" where
  \<comment> \<open>the second worker exits with code 1 without a message, the first one reports\<close>
  "abnormalExit = [(1, Exit 1), (0, Message [js ''carol'']), (0, Exit 0)]"

definition lostConnection :: browser where
  \<comment> \<open>the connection works for the first username and is gone afterwards\<close>
  "lostConnection =
     \<lparr>connectOk = True, newPageOk = True,
      answers = (\<lambda>u. if u = js ''carol'' then Loaded (Some (js ''Not Found!'')) else NavigationError),
      closeOk = False, disconnectOk = True\<rparr>"

definition unterminatedEnv :: env where
  \<comment> \<open>the record file does not end with a line feed\<close>
  "unterminatedEnv = exampleEnv\<lparr>recordFile := Some (js ''bob'')\<rparr>"

definition zeroWorkersEnv :: env where
  "zeroWorkersEnv = exampleEnv\<lparr>argv := [js ''node'', js ''main.js'', js ''names.txt'', js ''0'']\<rparr>"

definition failedWorkerEnv :: env where
  \<comment> \<open>the second worker cannot connect to the browser\<close>
  "failedWorkerEnv =
     exampleEnv\<lparr>inputFile := Some (js ''carol\<newline>zed\<newline>eve\<newline>dave\<newline>''),
                workers := (\<lambda>i. if i = 1 then Runs ((okBrowser exampleSite)\<lparr>connectOk := False\<rparr>)
                                else Runs (okBrowser exampleSite)),
                finishing := [0, 1]\<rparr>"

definition emptyArgEnv :: env where
  \<comment> \<open>the worker count is given as the empty string\<close>
  "emptyArgEnv =
     exampleEnv\<lparr>argv := [js ''node'', js ''main.js'', js ''names.txt'', []],
                finishing := [0, 1, 2, 3]\<rparr>"

section \<open>The check protocol and the worker loop\<close>

lemma checkLoop_filter:
  "checkLoop s us acc = acc @ filter (\<lambda>u. checkOne s u = Available) us"
  by (induction us arbitrary: acc) (auto split: classification.splits)

text \<open>
  C4. A username is classified available exactly when the node \<^verbatim>\<open>#serveralert\<close> exists
  and its trimmed text is \<^verbatim>\<open>Not Found!\<close>; every other loaded page, the one without the
  node included, gives unavailable; a failed or timed-out navigation and a failed
  evaluation give indeterminate.
\<close>

theorem checkOne_classification:
  "(checkOne s u = Available \<longleftrightarrow> (\<exists>t. s u = Loaded (Some t) \<and> trim t = js ''Not Found!''))
 \<and> (checkOne s u = Unavailable \<longleftrightarrow>
      (s u = Loaded None \<or> (\<exists>t. s u = Loaded (Some t) \<and> trim t \<noteq> js ''Not Found!'')))
 \<and> (checkOne s u = Indeterminate \<longleftrightarrow>
      (s u = NavigationError \<or> s u = NavigationTimeout \<or> s u = EvaluationError))"
  by (cases "s u")
     (auto simp: checkOne_def checkProtocol_def evaluate_def USERNAME_NOT_FOUND_MESSAGE_def
           split: option.splits)

theorem checkOne_classification_witness:
  "checkOne exampleSite (js ''carol'') = Available
 \<and> checkOne exampleSite (js ''alice'') = Unavailable
 \<and> checkOne exampleSite (js ''bob'') = Unavailable
 \<and> checkOne exampleSite (js ''dave'') = Indeterminate"
proof -
  have "trim (js '' Not Found!  '') = js ''Not Found!''" by code_simp
  moreover have "trim (js ''Not Found'') \<noteq> js ''Not Found!''" by code_simp
  moreover have "exampleSite (js ''carol'') = Loaded (Some (js '' Not Found!  ''))" by code_simp
  moreover have "exampleSite (js ''alice'') = Loaded (Some (js ''Not Found''))" by code_simp
  moreover have "exampleSite (js ''bob'') = Loaded None" by code_simp
  moreover have "exampleSite (js ''dave'') = NavigationTimeout" by code_simp
  ultimately show ?thesis
    using checkOne_classification [of exampleSite "js ''carol''"]
      checkOne_classification [of exampleSite "js ''alice''"]
      checkOne_classification [of exampleSite "js ''bob''"]
      checkOne_classification [of exampleSite "js ''dave''"]
    by simp
qed

text \<open>
  C8. When the check protocol throws for one username of a chunk, the loop goes on: the
  report is the report of the usernames before it followed by the report of those after
  it, the failing username is not in it, and every later username is in it exactly when
  it is classified available.
\<close>

theorem probe_failure_isolated:
  assumes "checkProtocol s u = Inl err"
  shows "checkLoop s (before @ u # after) [] = checkLoop s before [] @ checkLoop s after []
    \<and> u \<notin> set (checkLoop s (before @ u # after) [])
    \<and> (\<forall>v \<in> set after.
          v \<in> set (checkLoop s (before @ u # after) []) \<longleftrightarrow> checkOne s v = Available)"
proof -
  from assms have "checkOne s u = Indeterminate"
    by (simp add: checkOne_def)
  then show ?thesis
    by (auto simp: checkLoop_filter)
qed

theorem probe_failure_isolated_witness:
  "checkProtocol exampleSite (js ''dave'') = Inl GotoTimedOut
 \<and> checkLoop exampleSite [js ''carol'', js ''dave'', js ''eve''] [] = [js ''carol'', js ''eve'']
 \<and> js ''dave'' \<notin> set (checkLoop exampleSite [js ''carol'', js ''dave'', js ''eve''] [])"
proof -
  have h: "checkProtocol exampleSite (js ''dave'') = Inl GotoTimedOut" by code_simp
  have b: "checkLoop exampleSite [js ''carol''] [] = [js ''carol'']" by code_simp
  have a: "checkLoop exampleSite [js ''eve''] [] = [js ''eve'']" by code_simp
  note t = probe_failure_isolated [OF h, of "[js ''carol'']" "[js ''eve'']",
      unfolded append.simps a b]
  from h t show ?thesis by blast
qed

section \<open>The worker's report\<close>

lemma workerThread_report:
  "workerThread b chunk =
     [Message (if connectOk b \<and> newPageOk b \<and> disconnectOk b
               then checkLoop (answers b) chunk [] else []),
      Exit 0]"
  by (simp add: workerThread_def workerCheckAvailability_def tryBlock_def Let_def)

text \<open>
  C5, as the code has it. A worker thread that runs its block always posts exactly one
  message and then exits with code 0, and its function rejects only when
  \<^verbatim>\<open>browser.disconnect()\<close> throws, which the \<^verbatim>\<open>.catch\<close> handler turns into an empty
  report. The report is empty when connecting, opening the page or disconnecting fails.
  When the failure comes after the loop has started (\<^verbatim>\<open>page.close()\<close> throws, probes
  fail because the connection is gone), the report is the accumulator the loop has
  built, which need not be empty.
\<close>

theorem worker_always_reports:
  "workerThread b chunk =
     [Message (if connectOk b \<and> newPageOk b \<and> disconnectOk b
               then filter (\<lambda>u. checkOne (answers b) u = Available) chunk else []),
      Exit 0]
 \<and> ((\<exists>err. workerCheckAvailability b chunk = Inl err) \<longleftrightarrow> connectOk b \<and> \<not> disconnectOk b)
 \<and> snd (tryBlock b chunk) =
      (if connectOk b \<and> newPageOk b
       then filter (\<lambda>u. checkOne (answers b) u = Available) chunk else [])"
  by (simp add: workerThread_report checkLoop_filter)
     (simp add: workerCheckAvailability_def tryBlock_def Let_def checkLoop_filter)

theorem worker_always_reports_witness:
  "workerThread ((okBrowser exampleSite)\<lparr>disconnectOk := False\<rparr>) [js ''carol'', js ''eve'']
     = [Message [], Exit 0]
 \<and> workerCheckAvailability ((okBrowser exampleSite)\<lparr>disconnectOk := False\<rparr>)
      [js ''carol'', js ''eve''] = Inl DisconnectFailed"
proof -
  let ?b = "(okBrowser exampleSite)\<lparr>disconnectOk := False\<rparr>"
  have "\<not> disconnectOk ?b" by (simp add: okBrowser_def)
  moreover have "workerCheckAvailability ?b [js ''carol'', js ''eve''] = Inl DisconnectFailed"
    by (simp add: workerCheckAvailability_def okBrowser_def)
  ultimately show ?thesis
    using worker_always_reports [of ?b "[js ''carol'', js ''eve'']"] by simp
qed

text \<open>
  The claim fails when the connection is lost partway: the first username was found
  available, every later probe throws, \<^verbatim>\<open>page.close()\<close> throws into the outer
  \<^verbatim>\<open>catch\<close>, and the worker still reports the username it had found.
\<close>

theorem partial_report_counterexample:
  "tryBlock lostConnection [js ''carol'', js ''dave'', js ''eve'']
     = (Inl CloseFailed, [js ''carol''])
 \<and> workerThread lostConnection [js ''carol'', js ''dave'', js ''eve'']
     = [Message [js ''carol''], Exit 0]"
  by code_simp

section \<open>Chunks\<close>

lemma ceil_div_int:
  assumes "1 \<le> (n::int)"
  shows "- (- t div n) = (t + n - 1) div n"
proof -
  define q where "q = (t + n - 1) div n"
  define r where "r = (t + n - 1) mod n"
  have eq: "t + n - 1 = n * q + r" by (simp add: q_def r_def)
  have r: "0 \<le> r" "r < n" using assms by (simp_all add: r_def)
  have "- t = n * (- q) + (n - 1 - r)" using eq by (simp add: algebra_simps)
  moreover have "0 \<le> n - 1 - r" "n - 1 - r < n" using r by simp_all
  ultimately have "- t div n = - q" by (rule int_div_pos_eq)
  then show ?thesis by (simp add: q_def)
qed

lemma usernamesPerWorker_ceiling:
  assumes "1 \<le> n"
  shows "int (usernamesPerWorker t (Num n)) = \<lceil>real t / real_of_int n\<rceil>"
proof -
  have "\<lceil>real t / real_of_int n\<rceil> = \<lceil>real_of_int (int t) / real_of_int n\<rceil>" by simp
  also have "\<dots> = - (- int t div n)" by (rule ceiling_divide_eq_div)
  also have "\<dots> = (int t + n - 1) div n" using assms by (rule ceil_div_int)
  finally have c: "\<lceil>real t / real_of_int n\<rceil> = (int t + n - 1) div n" .
  have "0 \<le> (int t + n - 1) div n" using assms by (simp add: pos_imp_zdiv_nonneg_iff)
  with c show ?thesis by (simp add: usernamesPerWorker_def)
qed

lemma per_covers:
  assumes "1 \<le> n"
  shows "t \<le> nat n * usernamesPerWorker t (Num n)"
proof -
  define q where "q = (int t + n - 1) div n"
  define r where "r = (int t + n - 1) mod n"
  have eq: "int t + n - 1 = n * q + r" by (simp add: q_def r_def)
  have r: "r < n" using assms by (simp add: r_def)
  have q: "0 \<le> q" using assms by (simp add: q_def pos_imp_zdiv_nonneg_iff)
  have "int t \<le> n * q" using eq r by linarith
  also have "\<dots> = int (nat n * nat q)" using assms q by simp
  finally have "t \<le> nat n * nat q" by (simp only: of_nat_le_iff)
  then show ?thesis by (simp add: usernamesPerWorker_def q_def)
qed

lemma concat_slices:
  "concat (map (\<lambda>i. arraySlice xs (i * per) (i * per + per)) [0..<k]) = take (k * per) xs"
proof (induction k)
  case 0
  then show ?case by simp
next
  case (Suc k)
  have "take (k * per) xs @ take per (drop (k * per) xs) = take (k * per + per) xs"
    by (simp add: take_add)
  with Suc show ?case by (simp add: arraySlice_def add.commute)
qed

lemma concat_filter_nonempty:
  "concat (filter (\<lambda>c. c \<noteq> []) cs) = concat cs"
  by (induction cs) auto

lemma distribute_counted:
  assumes "n \<le> 2 ^ 53"
  shows "distribute xs (Num n) =
    filter (\<lambda>c. c \<noteq> [])
      (map (\<lambda>i. arraySlice xs (i * usernamesPerWorker (length xs) (Num n))
                    (i * usernamesPerWorker (length xs) (Num n) + usernamesPerWorker (length xs) (Num n)))
           [0..<nat n])"
  using assms by (simp add: distribute_def counterValues_def Let_def)

lemma concat_distribute:
  assumes "1 \<le> n" "n \<le> 2 ^ 53"
  shows "concat (distribute xs (Num n)) = xs"
  using per_covers [OF assms(1), of "length xs"]
  by (simp add: distribute_counted [OF assms(2)] concat_filter_nonempty concat_slices)

lemma distribute_nonempty: "[] \<notin> set (distribute xs nw)"
  by (simp add: distribute_def Let_def)

lemma distribute_subset: "c \<in> set (distribute xs nw) \<Longrightarrow> set c \<subseteq> set xs"
  by (auto simp: distribute_def Let_def arraySlice_def dest: in_set_takeD in_set_dropD)

lemma distribute_length:
  assumes "n \<le> 2 ^ 53"
  shows "length (distribute xs (Num n)) \<le> nat n"
proof -
  have "length (filter P (map f [0..<nat n])) \<le> nat n" for P and f :: "nat \<Rightarrow> 'a list"
    using length_filter_le [of P "map f [0..<nat n]"] by simp
  then show ?thesis by (simp add: distribute_counted [OF assms])
qed

lemma distribute_chunk_length:
  "c \<in> set (distribute xs nw) \<Longrightarrow> length c \<le> usernamesPerWorker (length xs) nw"
  by (auto simp: distribute_def Let_def arraySlice_def)

lemma distribute_PosInfinity: "distribute xs PosInfinity = []"
  by (simp add: distribute_def usernamesPerWorker_def arraySlice_def filter_empty_conv)

lemma distribute_disjoint:
  assumes "1 \<le> n" "n \<le> 2 ^ 53" "distinct xs" "i < j" "j < length (distribute xs (Num n))"
  shows "set (distribute xs (Num n) ! i) \<inter> set (distribute xs (Num n) ! j) = {}"
proof -
  let ?cs = "distribute xs (Num n)"
  have d: "distinct (concat ?cs)" using assms by (simp add: concat_distribute)
  have ne: "[] \<notin> set ?cs" by (rule distribute_nonempty)
  from d ne have dc: "distinct ?cs"
    by (simp add: distinct_concat_iff)
  with assms have "?cs ! i \<noteq> ?cs ! j"
    by (simp add: nth_eq_iff_index_eq)
  with d assms show ?thesis
    by (simp add: distinct_concat_iff)
qed

text \<open>
  How \<^verbatim>\<open>parseInt\<close> rounds: an integer between two doubles goes to the nearer one, to
  the even one in a tie, and a digit string beyond the largest double is infinite.
\<close>

lemma parseInt_rounds:
  "parseInt (js ''9007199254740993'') = Num 9007199254740992
 \<and> parseInt (js ''-9007199254740995'') = Num (- 9007199254740996)
 \<and> parseInt (js ''1'' @ replicate 309 0x30) = PosInfinity"
  by code_simp

text \<open>
  C3, as the code has it. For a worker count from 1 to \<open>2^53\<close> the loop ends and the
  chunks are consecutive pieces of the work set of at most
  \<open>ceil(|workSet| / workerCount)\<close> usernames each: put one after the other they give
  back the work set, so their union as sets is the work set; none is empty, and there
  are at most as many as the worker count. Two chunks share no username when the work
  set has no repeated username. A worker count above \<open>2^53\<close> keeps the main thread in
  the loop for ever, and for the infinite one the chunk size is 0 and there is no chunk
  at all.
\<close>

theorem chunks_partition:
  assumes "1 \<le> n" and "n \<le> 2 ^ 53"
  shows "concat (distribute workSet (Num n)) = workSet
    \<and> (\<Union>c \<in> set (distribute workSet (Num n)). set c) = set workSet
    \<and> [] \<notin> set (distribute workSet (Num n))
    \<and> length (distribute workSet (Num n)) \<le> nat n
    \<and> (\<forall>c \<in> set (distribute workSet (Num n)).
          int (length c) \<le> \<lceil>real (length workSet) / real_of_int n\<rceil>)
    \<and> (distinct workSet \<longrightarrow>
         (\<forall>i j. i < j \<and> j < length (distribute workSet (Num n)) \<longrightarrow>
            set (distribute workSet (Num n) ! i) \<inter> set (distribute workSet (Num n) ! j) = {}))
    \<and> loopEnds (Num n)
    \<and> (2 ^ 53 < k \<longrightarrow> \<not> loopEnds (Num k))
    \<and> \<not> loopEnds PosInfinity
    \<and> usernamesPerWorker (length workSet) PosInfinity = 0
    \<and> distribute workSet PosInfinity = []"
proof -
  have c: "concat (distribute workSet (Num n)) = workSet"
    using assms by (rule concat_distribute)
  have "(\<Union>c \<in> set (distribute workSet (Num n)). set c) = set (concat (distribute workSet (Num n)))"
    by simp
  then have u: "(\<Union>c \<in> set (distribute workSet (Num n)). set c) = set workSet"
    by (simp only: c)
  have l: "\<forall>c \<in> set (distribute workSet (Num n)).
      int (length c) \<le> \<lceil>real (length workSet) / real_of_int n\<rceil>"
    using distribute_chunk_length [of _ workSet "Num n"]
      usernamesPerWorker_ceiling [OF assms(1), of "length workSet"]
    by fastforce
  have e: "loopEnds (Num n)" "2 ^ 53 < k \<longrightarrow> \<not> loopEnds (Num k)" "\<not> loopEnds PosInfinity"
    "usernamesPerWorker (length workSet) PosInfinity = 0"
    using assms by (simp_all add: loopEnds_def usernamesPerWorker_def)
  show ?thesis
    using c u l e distribute_nonempty [of workSet "Num n"] distribute_length [OF assms(2), of workSet]
      distribute_disjoint [OF assms, of workSet] distribute_PosInfinity [of workSet]
    by blast
qed

theorem chunks_partition_witness:
  "(1::int) \<le> 3 \<and> (3::int) \<le> 2 ^ 53
 \<and> distribute [js ''alice'', js ''carol''] (Num 3) = [[js ''alice''], [js ''carol'']]
 \<and> concat (distribute [js ''alice'', js ''carol''] (Num 3)) = [js ''alice'', js ''carol'']
 \<and> length (distribute [js ''alice'', js ''carol''] (Num 3)) \<le> nat 3
 \<and> loopEnds (Num 3)"
proof -
  have h: "(1::int) \<le> 3" by simp
  have b: "(3::int) \<le> 2 ^ 53" by simp
  have "distribute [js ''alice'', js ''carol''] (Num 3) = [[js ''alice''], [js ''carol'']]"
    by code_simp
  with h b show ?thesis
    using chunks_partition [OF h b, of "[js ''alice'', js ''carol'']"] by simp
qed

text \<open>
  The claim fails for a work set with a repeated username: the input file is not
  deduplicated, and the two chunks here both hold the first username.
\<close>

theorem chunks_overlap_counterexample:
  "distribute [js ''ann'', js ''bob'', js ''ann''] (Num 2) = [[js ''ann'', js ''bob''], [js ''ann'']]
 \<and> set (distribute [js ''ann'', js ''bob'', js ''ann''] (Num 2) ! 0)
     \<inter> set (distribute [js ''ann'', js ''bob'', js ''ann''] (Num 2) ! 1) = {js ''ann''}"
  by code_simp

section \<open>The join\<close>

declare joinLoop.simps [simp del]
declare bitLength.simps [simp del]

lemma joinLoop_done:
  "list_all (\<lambda>p. p = Resolved) ps \<Longrightarrow> joinLoop ps acc evs = (AllResolved acc, evs)"
  by (subst joinLoop.simps) simp

lemma joinLoop_Nil:
  "\<not> list_all (\<lambda>p. p = Resolved) ps \<Longrightarrow> joinLoop ps acc [] = (NeverSettled, [])"
  by (subst joinLoop.simps) simp

lemma joinLoop_Message:
  "\<not> list_all (\<lambda>p. p = Resolved) ps \<Longrightarrow>
   joinLoop ps acc ((i, Message m) # evs) = joinLoop (resolve i ps) (acc @ m) evs"
  by (subst joinLoop.simps) simp

lemma joinLoop_Exit:
  "\<not> list_all (\<lambda>p. p = Resolved) ps \<Longrightarrow>
   joinLoop ps acc ((i, Exit c) # evs) = joinLoop (resolve i ps) acc evs"
  by (subst joinLoop.simps) simp

lemma joinLoop_Error:
  "\<not> list_all (\<lambda>p. p = Resolved) ps \<Longrightarrow>
   joinLoop ps acc ((i, Error) # evs) =
     (if i < length ps \<and> ps ! i = Pending then (FirstRejected, evs) else joinLoop ps acc evs)"
  by (subst joinLoop.simps) simp

lemma resolve_length [simp]: "length (resolve i ps) = length ps"
  by (simp add: resolve_def)

lemma resolve_Pending:
  "resolve j ps ! i = Pending \<Longrightarrow> i < length ps \<Longrightarrow> ps ! i = Pending \<and> (i = j \<longrightarrow> False)"
  by (auto simp: resolve_def nth_list_update split: if_splits)

lemma resolve_other:
  "i < length ps \<Longrightarrow> ps ! i = Pending \<Longrightarrow> i \<noteq> j \<Longrightarrow> resolve j ps ! i = Pending"
  by (auto simp: resolve_def)

lemma joinLoop_AllResolved:
  "joinLoop ps acc evs = (AllResolved newly, rest) \<Longrightarrow>
   \<exists>pre. evs = pre @ rest \<and> newly = acc @ messagesOf pre \<and>
     (\<forall>i<length ps. ps ! i = Pending \<longrightarrow> (\<exists>e. (i, e) \<in> set pre \<and> e \<noteq> Error))"
proof (induction evs arbitrary: ps acc)
  case Nil
  show ?case
  proof (cases "list_all (\<lambda>p. p = Resolved) ps")
    case True
    with Nil show ?thesis by (auto simp: joinLoop_done list_all_length)
  next
    case False
    with Nil show ?thesis by (simp add: joinLoop_Nil)
  qed
next
  case (Cons ev evs)
  show ?case
  proof (cases "list_all (\<lambda>p. p = Resolved) ps")
    case True
    with Cons.prems have "newly = acc" "rest = ev # evs" by (simp_all add: joinLoop_done)
    moreover from True have "\<forall>i<length ps. ps ! i \<noteq> Pending" by (auto simp: list_all_length)
    ultimately show ?thesis by (intro exI[of _ "[]"]) simp
  next
    case False
    obtain j e where ev: "ev = (j, e)" by (cases ev)
    show ?thesis
    proof (cases e)
      case (Message m)
      with Cons.prems False ev have "joinLoop (resolve j ps) (acc @ m) evs = (AllResolved newly, rest)"
        by (simp add: joinLoop_Message)
      from Cons.IH[OF this] obtain pre where pre: "evs = pre @ rest" "newly = (acc @ m) @ messagesOf pre"
        "\<forall>i<length ps. resolve j ps ! i = Pending \<longrightarrow> (\<exists>e. (i, e) \<in> set pre \<and> e \<noteq> Error)"
        by auto
      have "\<forall>i<length ps. ps ! i = Pending \<longrightarrow> (\<exists>e. (i, e) \<in> set ((j, Message m) # pre) \<and> e \<noteq> Error)"
      proof (intro allI impI)
        fix i assume i: "i < length ps" "ps ! i = Pending"
        show "\<exists>e. (i, e) \<in> set ((j, Message m) # pre) \<and> e \<noteq> Error"
        proof (cases "i = j")
          case True then show ?thesis by auto
        next
          case False
          with i have "resolve j ps ! i = Pending" by (simp add: resolve_other)
          with pre(3) i obtain e where "(i, e) \<in> set pre" "e \<noteq> Error" by blast
          then show ?thesis by auto
        qed
      qed
      with pre(1,2) ev Message show ?thesis
        by (intro exI[of _ "(j, Message m) # pre"]) simp
    next
      case Error
      with Cons.prems False ev have "joinLoop ps acc evs = (AllResolved newly, rest)"
        by (simp add: joinLoop_Error split: if_splits)
      from Cons.IH[OF this] obtain pre where pre: "evs = pre @ rest" "newly = acc @ messagesOf pre"
        "\<forall>i<length ps. ps ! i = Pending \<longrightarrow> (\<exists>e. (i, e) \<in> set pre \<and> e \<noteq> Error)"
        by auto
      then have "\<forall>i<length ps. ps ! i = Pending \<longrightarrow> (\<exists>e. (i, e) \<in> set ((j, Error) # pre) \<and> e \<noteq> Error)"
        by auto
      with pre(1,2) ev Error show ?thesis
        by (intro exI[of _ "(j, Error) # pre"]) simp
    next
      case (Exit c)
      with Cons.prems False ev have "joinLoop (resolve j ps) acc evs = (AllResolved newly, rest)"
        by (simp add: joinLoop_Exit)
      from Cons.IH[OF this] obtain pre where pre: "evs = pre @ rest" "newly = acc @ messagesOf pre"
        "\<forall>i<length ps. resolve j ps ! i = Pending \<longrightarrow> (\<exists>e. (i, e) \<in> set pre \<and> e \<noteq> Error)"
        by auto
      have "\<forall>i<length ps. ps ! i = Pending \<longrightarrow> (\<exists>e. (i, e) \<in> set ((j, Exit c) # pre) \<and> e \<noteq> Error)"
      proof (intro allI impI)
        fix i assume i: "i < length ps" "ps ! i = Pending"
        show "\<exists>e. (i, e) \<in> set ((j, Exit c) # pre) \<and> e \<noteq> Error"
        proof (cases "i = j")
          case True then show ?thesis by auto
        next
          case False
          with i have "resolve j ps ! i = Pending" by (simp add: resolve_other)
          with pre(3) i obtain e where "(i, e) \<in> set pre" "e \<noteq> Error" by blast
          then show ?thesis by auto
        qed
      qed
      with pre(1,2) ev Exit show ?thesis
        by (intro exI[of _ "(j, Exit c) # pre"]) simp
    qed
  qed
qed

lemma joinLoop_FirstRejected:
  "joinLoop ps acc evs = (FirstRejected, rest) \<Longrightarrow>
   \<exists>pre i. evs = pre @ (i, Error) # rest \<and> i < length ps \<and> ps ! i = Pending \<and>
     (\<forall>e. (i, e) \<notin> set pre)"
proof (induction evs arbitrary: ps acc)
  case Nil
  then show ?case by (cases "list_all (\<lambda>p. p = Resolved) ps") (simp_all add: joinLoop_done joinLoop_Nil)
next
  case (Cons ev evs)
  show ?case
  proof (cases "list_all (\<lambda>p. p = Resolved) ps")
    case True
    with Cons.prems show ?thesis by (simp add: joinLoop_done)
  next
    case False
    obtain j e where ev: "ev = (j, e)" by (cases ev)
    have step: "\<exists>pre i. ev # evs = pre @ (i, Error) # rest \<and> i < length ps \<and> ps ! i = Pending \<and>
        (\<forall>e. (i, e) \<notin> set pre)"
      if rec: "joinLoop (resolve j ps) acc' evs = (FirstRejected, rest)" and "e \<noteq> Error" for acc'
    proof -
      from Cons.IH[OF rec] obtain pre i where pre: "evs = pre @ (i, Error) # rest" "i < length ps"
        "resolve j ps ! i = Pending" "\<forall>e. (i, e) \<notin> set pre" by auto
      from resolve_Pending[OF pre(3) pre(2)] have "ps ! i = Pending" "i \<noteq> j" by auto
      with pre ev show ?thesis
        by (intro exI[of _ "ev # pre"] exI[of _ i]) auto
    qed
    show ?thesis
    proof (cases e)
      case (Message m)
      with Cons.prems False ev step show ?thesis by (simp add: joinLoop_Message)
    next
      case (Exit c)
      with Cons.prems False ev step show ?thesis by (simp add: joinLoop_Exit)
    next
      case Error
      show ?thesis
      proof (cases "j < length ps \<and> ps ! j = Pending")
        case True
        with Cons.prems False ev Error have "rest = evs" by (simp add: joinLoop_Error)
        with True ev Error show ?thesis
          by (intro exI[of _ "[]"] exI[of _ j]) simp
      next
        case nopend: False
        with Cons.prems False ev Error have "joinLoop ps acc evs = (FirstRejected, rest)"
          by (simp add: joinLoop_Error)
        from Cons.IH[OF this] obtain pre i where pre: "evs = pre @ (i, Error) # rest" "i < length ps"
          "ps ! i = Pending" "\<forall>e. (i, e) \<notin> set pre" by auto
        with nopend have "i \<noteq> j" by auto
        with pre ev show ?thesis
          by (intro exI[of _ "ev # pre"] exI[of _ i]) auto
      qed
    qed
  qed
qed

lemma joinLoop_NeverSettled:
  "joinLoop ps acc evs = (NeverSettled, rest) \<Longrightarrow>
   rest = [] \<and> (\<exists>i<length ps. ps ! i = Pending \<and> (\<forall>e. (i, e) \<notin> set evs))"
proof (induction evs arbitrary: ps acc)
  case Nil
  show ?case
  proof (cases "list_all (\<lambda>p. p = Resolved) ps")
    case True
    with Nil show ?thesis by (simp add: joinLoop_done)
  next
    case False
    then obtain i where "i < length ps" "ps ! i \<noteq> Resolved" by (auto simp: list_all_length)
    then have "i < length ps" "ps ! i = Pending" by (cases "ps ! i"; simp)+
    with Nil False show ?thesis by (auto simp: joinLoop_Nil)
  qed
next
  case (Cons ev evs)
  show ?case
  proof (cases "list_all (\<lambda>p. p = Resolved) ps")
    case True
    with Cons.prems show ?thesis by (simp add: joinLoop_done)
  next
    case False
    obtain j e where ev: "ev = (j, e)" by (cases ev)
    have step: "rest = [] \<and> (\<exists>i<length ps. ps ! i = Pending \<and> (\<forall>e. (i, e) \<notin> set (ev # evs)))"
      if rec: "joinLoop (resolve j ps) acc' evs = (NeverSettled, rest)" for acc'
    proof -
      from Cons.IH[OF rec] obtain i where i: "rest = []" "i < length ps"
        "resolve j ps ! i = Pending" "\<forall>e. (i, e) \<notin> set evs" by auto
      from resolve_Pending[OF i(3) i(2)] have "ps ! i = Pending" "i \<noteq> j" by auto
      with i ev show ?thesis by auto
    qed
    show ?thesis
    proof (cases e)
      case (Message m)
      with Cons.prems False ev step show ?thesis by (simp add: joinLoop_Message)
    next
      case (Exit c)
      with Cons.prems False ev step show ?thesis by (simp add: joinLoop_Exit)
    next
      case Error
      with Cons.prems False ev have nopend: "\<not> (j < length ps \<and> ps ! j = Pending)"
        and rec: "joinLoop ps acc evs = (NeverSettled, rest)"
        by (simp_all add: joinLoop_Error split: if_splits)
      from Cons.IH[OF rec] obtain i where i: "rest = []" "i < length ps"
        "ps ! i = Pending" "\<forall>e. (i, e) \<notin> set evs" by auto
      with nopend have "i \<noteq> j" by auto
      with i ev show ?thesis by auto
    qed
  qed
qed

lemma joinLoop_rejects:
  assumes "i < length ps" "ps ! i = Pending"
    and "\<forall>ev. (i, ev) \<notin> set before" "\<forall>j. (j, Error) \<notin> set before"
  shows "joinLoop ps acc (before @ (i, Error) # after) = (FirstRejected, after)"
  using assms
proof (induction before arbitrary: ps acc)
  case Nil
  then have "\<not> list_all (\<lambda>p. p = Resolved) ps" by (auto simp: list_all_length)
  with Nil show ?case by (simp add: joinLoop_Error)
next
  case (Cons ev before)
  obtain j e where ev: "ev = (j, e)" by (cases ev)
  from Cons.prems have pending: "\<not> list_all (\<lambda>p. p = Resolved) ps"
    by (auto simp: list_all_length)
  from Cons.prems ev have j: "i \<noteq> j" and e: "e \<noteq> Error" by auto
  from Cons.prems j have p: "i < length (resolve j ps)" "resolve j ps ! i = Pending"
    by (simp_all add: resolve_other)
  from Cons.prems have rest: "\<forall>ev. (i, ev) \<notin> set before" "\<forall>j. (j, Error) \<notin> set before"
    by auto
  show ?case
  proof (cases e)
    case (Message m)
    with ev pending Cons.IH [OF p rest] show ?thesis by (simp add: joinLoop_Message)
  next
    case Error
    with e show ?thesis by simp
  next
    case (Exit c)
    with ev pending Cons.IH [OF p rest] show ?thesis by (simp add: joinLoop_Exit)
  qed
qed

text \<open>
  C1, as the code has it. The await ends in one of three ways, after some of the events
  have been delivered. It fulfils only when every spawned worker has posted its message
  or exited, with whatever exit code, and the merged list is then exactly what the
  messages delivered so far carried: a worker that exits without a message adds nothing
  and ends nothing. It rejects at the \<^verbatim>\<open>'error'\<close> event of a worker that has delivered
  nothing before: the events of the other workers that are still to come are not waited
  for. It never settles when some worker delivers nothing at all. A run whose await
  rejects writes nothing.
\<close>

theorem join_waits_unless_error:
  assumes "joinAll n evs = (out, rest)"
  shows "(\<exists>pre. evs = pre @ rest \<and>
    (case out of
       AllResolved newly \<Rightarrow>
         newly = messagesOf pre \<and> (\<forall>i<n. \<exists>ev. (i, ev) \<in> set pre \<and> ev \<noteq> Error)
     | FirstRejected \<Rightarrow>
         (\<exists>before i. pre = before @ [(i, Error)] \<and> i < n \<and> (\<forall>ev. (i, ev) \<notin> set before))
     | NeverSettled \<Rightarrow> rest = [] \<and> (\<exists>i<n. \<forall>ev. (i, ev) \<notin> set evs)))
   \<and> (fst (joinAll (length (distribute (usernamesToCheck e) (numWorkers e)))
              (deliveries (workers e) (distribute (usernamesToCheck e) (numWorkers e))
                 (finishing e))) = FirstRejected
        \<longrightarrow> appended (runMain e) = [] \<and> recordAfter (runMain e) = recordFile e)
   \<and> (i < m \<and> (\<forall>ev. (i, ev) \<notin> set before) \<and> (\<forall>j. (j, Error) \<notin> set before)
        \<longrightarrow> joinAll m (before @ (i, Error) # after) = (FirstRejected, after))"
proof -
  have rej: "i < m \<and> (\<forall>ev. (i, ev) \<notin> set before) \<and> (\<forall>j. (j, Error) \<notin> set before)
        \<longrightarrow> joinAll m (before @ (i, Error) # after) = (FirstRejected, after)"
    by (simp add: joinAll_def joinLoop_rejects)
  have run: "fst (joinAll (length (distribute (usernamesToCheck e) (numWorkers e)))
              (deliveries (workers e) (distribute (usernamesToCheck e) (numWorkers e))
                 (finishing e))) = FirstRejected
        \<longrightarrow> appended (runMain e) = [] \<and> recordAfter (runMain e) = recordFile e"
    by (simp add: runMain_def stopped_def Let_def)
  have join: "\<exists>pre. evs = pre @ rest \<and>
    (case out of
       AllResolved newly \<Rightarrow>
         newly = messagesOf pre \<and> (\<forall>i<n. \<exists>ev. (i, ev) \<in> set pre \<and> ev \<noteq> Error)
     | FirstRejected \<Rightarrow>
         (\<exists>before i. pre = before @ [(i, Error)] \<and> i < n \<and> (\<forall>ev. (i, ev) \<notin> set before))
     | NeverSettled \<Rightarrow> rest = [] \<and> (\<exists>i<n. \<forall>ev. (i, ev) \<notin> set evs))"
  proof (cases out)
    case (AllResolved newly)
    with assms have "joinLoop (replicate n Pending) [] evs = (AllResolved newly, rest)"
      by (simp add: joinAll_def)
    from joinLoop_AllResolved[OF this] AllResolved show ?thesis by auto
  next
    case FirstRejected
    with assms have "joinLoop (replicate n Pending) [] evs = (FirstRejected, rest)"
      by (simp add: joinAll_def)
    from joinLoop_FirstRejected[OF this] obtain pre i where
      "evs = pre @ (i, Error) # rest" "i < n" "\<forall>ev. (i, ev) \<notin> set pre" by auto
    with FirstRejected show ?thesis
      by (intro exI[of _ "pre @ [(i, Error)]"]) auto
  next
    case NeverSettled
    with assms have "joinLoop (replicate n Pending) [] evs = (NeverSettled, rest)"
      by (simp add: joinAll_def)
    from joinLoop_NeverSettled[OF this] NeverSettled show ?thesis by auto
  qed
  from join run rej show ?thesis by (intro conjI)
qed

theorem join_waits_unless_error_witness:
  "joinAll 2 abnormalExit = (AllResolved [js ''carol''], [(0, Exit 0)])
 \<and> (\<exists>pre. abnormalExit = pre @ [(0, Exit 0)] \<and> [js ''carol''] = messagesOf pre)"
proof -
  have h: "joinAll 2 abnormalExit = (AllResolved [js ''carol''], [(0, Exit 0)])"
    by code_simp
  from join_waits_unless_error [OF h, THEN conjunct1] have
    "\<exists>pre. abnormalExit = pre @ [(0, Exit 0)] \<and> [js ''carol''] = messagesOf pre"
    by auto
  with h show ?thesis by (rule conjI)
qed

text \<open>
  The claim fails when a worker emits \<^verbatim>\<open>'error'\<close>: the handler rejects that worker's
  promise, \<^verbatim>\<open>Promise.all\<close> rejects with it, and the main thread goes to its
  \<^verbatim>\<open>catch\<close>. Here the first worker dies before the second has reported; the second
  worker's message, which carries a username it found, is still to come when the await
  ends, and nothing is written.
\<close>

theorem join_rejects_counterexample:
  "joinAll 2 (deliveries (workers crashEnv) (spawned (runMain crashEnv)) (finishing crashEnv))
     = (FirstRejected, [(0, Exit 1), (1, Message [js ''eve'']), (1, Exit 0)])
 \<and> spawned (runMain crashEnv) = [[js ''alice'', js ''carol''], [js ''dave'', js ''eve'']]
 \<and> appended (runMain crashEnv) = []
 \<and> recordAfter (runMain crashEnv) = recordFile crashEnv"
  by code_simp

section \<open>Lines and files\<close>

lemma splitLines_nonempty [simp]: "splitLines s \<noteq> []"
  by (induction s rule: splitLines.induct) (auto split: list.splits)

lemma splitLines_no_LF: "l \<in> set (splitLines s) \<Longrightarrow> LF \<notin> set l"
  by (induction s arbitrary: l rule: splitLines.induct) (auto split: list.splits if_splits)

lemma set_trim: "set (trim t) \<subseteq> set t"
proof -
  have "set (trim t) = set (dropWhile isWhiteSpace (rev (dropWhile isWhiteSpace t)))"
    by (simp add: trim_def)
  also have "\<dots> \<subseteq> set (rev (dropWhile isWhiteSpace t))" by (rule set_dropWhileD[THEN subsetI]) 
  also have "\<dots> \<subseteq> set t" by (auto dest: set_dropWhileD)
  finally show ?thesis .
qed

lemma last_dropWhile: "dropWhile P xs \<noteq> [] \<Longrightarrow> last (dropWhile P xs) = last xs"
  by (induction xs) (auto split: if_splits)

lemma trim_ends:
  assumes "trim t \<noteq> []"
  shows "\<not> isWhiteSpace (hd (trim t))" "\<not> isWhiteSpace (last (trim t))"
proof -
  define d where "d = dropWhile isWhiteSpace t"
  define r where "r = dropWhile isWhiteSpace (rev d)"
  have t: "trim t = rev r" by (simp add: trim_def d_def r_def)
  with assms have r: "r \<noteq> []" by simp
  then have d: "d \<noteq> []" by (auto simp: r_def)
  from r have "\<not> isWhiteSpace (hd r)" unfolding r_def by (rule hd_dropWhile)
  with r t show "\<not> isWhiteSpace (last (trim t))" by (simp add: last_rev)
  from r have "last r = last (rev d)" unfolding r_def by (rule last_dropWhile)
  also from d have "\<dots> = hd d" by (simp add: last_rev)
  finally have "hd (trim t) = hd d" using r t by (simp add: hd_rev)
  moreover from d have "\<not> isWhiteSpace (hd d)" unfolding d_def by (rule hd_dropWhile)
  ultimately show "\<not> isWhiteSpace (hd (trim t))" by simp
qed

lemma isWhiteSpace_CR: "isWhiteSpace CR" by (simp add: isWhiteSpace_def CR_def)
lemma isWhiteSpace_LF: "isWhiteSpace LF" by (simp add: isWhiteSpace_def LF_def)

lemma dropWhile_hd: "xs \<noteq> [] \<Longrightarrow> \<not> P (hd xs) \<Longrightarrow> dropWhile P xs = xs"
  by (cases xs) simp_all

lemma trim_clean: 
  assumes "clean u"
  shows "trim u = u"
proof -
  from assms have u: "u \<noteq> []" "\<not> isWhiteSpace (hd u)" "\<not> isWhiteSpace (last u)"
    by (simp_all add: clean_def)
  then have "dropWhile isWhiteSpace u = u" by (simp add: dropWhile_hd)
  moreover from u have "dropWhile isWhiteSpace (rev u) = rev u"
    by (simp add: dropWhile_hd hd_rev)
  ultimately show ?thesis by (simp add: trim_def)
qed

lemma trim_Nil [simp]: "trim [] = []"
  by (simp add: trim_def)

lemma clean_trim: "LF \<notin> set l \<Longrightarrow> trim l \<noteq> [] \<Longrightarrow> clean (trim l)"
  using set_trim[of l] trim_ends[of l] by (auto simp: clean_def)

lemma readUsernames_clean: "u \<in> set (readUsernames c) \<Longrightarrow> clean u"
  by (auto simp: readUsernames_def intro!: clean_trim dest: splitLines_no_LF)

lemma clean_last: "clean u \<Longrightarrow> last u \<noteq> CR"
  using isWhiteSpace_CR by (auto simp: clean_def)

lemma splitLines_clean_LF:
  assumes "LF \<notin> set x" "x = [] \<or> last x \<noteq> CR"
  shows "splitLines (x @ LF # rest) = x # splitLines rest"
  using assms
proof (induction x)
  case Nil
  then show ?case by simp
next
  case (Cons c x)
  then have c: "c \<noteq> LF" and x: "LF \<notin> set x" "x = [] \<or> last x \<noteq> CR" by auto
  from Cons.prems have "\<not> (c = CR \<and> take 1 (x @ LF # rest) = [LF])"
    by (cases x) auto
  with c Cons.IH[OF x] show ?case by simp
qed

lemma splitLines_length_LF: "LF \<in> set s \<Longrightarrow> 2 \<le> length (splitLines s)"
proof (induction s rule: splitLines.induct)
  case 1
  then show ?case by simp
next
  case (2 c cs)
  show ?case
  proof (cases "c = LF")
    case True
    then show ?thesis using splitLines_nonempty[of cs] by (cases "splitLines cs") simp_all
  next
    case False
    show ?thesis
    proof (cases "c = CR \<and> take 1 cs = [LF]")
      case True
      with False show ?thesis using splitLines_nonempty[of "drop 1 cs"]
        by (cases "splitLines (drop 1 cs)") simp_all
    next
      case nocr: False
      with False 2 have "2 \<le> length (splitLines cs)" by auto
      with False nocr show ?thesis by (auto split: list.splits)
    qed
  qed
qed

lemma butlast_Cons2: "2 \<le> length (l # ls) \<Longrightarrow> butlast (l # ls) = l # butlast ls"
  by (cases ls) simp_all

lemma splitLines_append_LF:
  "splitLines (a @ LF # b) = butlast (splitLines (a @ [LF])) @ splitLines b"
proof (induction a rule: splitLines.induct)
  case 1
  then show ?case by simp
next
  case (2 c cs)
  show ?case
  proof (cases "c = LF")
    case True
    with 2 show ?thesis by simp
  next
    case False
    show ?thesis
    proof (cases "c = CR \<and> take 1 cs = [LF]")
      case True
      then obtain cs' where cs: "cs = LF # cs'" by (cases cs) auto
      with True False 2 show ?thesis by simp
    next
      case nocr: False
      show ?thesis
      proof (cases "c = CR \<and> cs = []")
        case True
        with False show ?thesis by simp
      next
        case notlast: False
        with nocr have n1: "\<not> (c = CR \<and> take 1 (cs @ LF # b) = [LF])"
          and n2: "\<not> (c = CR \<and> take 1 (cs @ [LF]) = [LF])" by (cases cs; auto)+
        from 2 False nocr have IH: "splitLines (cs @ LF # b) = butlast (splitLines (cs @ [LF])) @ splitLines b"
          by simp
        have "2 \<le> length (splitLines (cs @ [LF]))" by (rule splitLines_length_LF) simp
        then obtain l ls where ls: "splitLines (cs @ [LF]) = l # ls" "ls \<noteq> []"
          by (cases "splitLines (cs @ [LF])") (auto simp: Suc_le_eq)
        with False n1 n2 IH show ?thesis by simp
      qed
    qed
  qed
qed

lemma splitLines_last_LF: "last (splitLines (a @ [LF])) = []"
proof -
  have "splitLines (a @ LF # []) = butlast (splitLines (a @ [LF])) @ splitLines []"
    by (rule splitLines_append_LF)
  then have "last (splitLines (a @ [LF])) = last (butlast (splitLines (a @ [LF])) @ [[]])"
    by simp
  then show ?thesis by simp
qed

lemma splitLines_joinWith:
  assumes "N \<noteq> []" "\<forall>u \<in> set N. clean u"
  shows "splitLines (joinWith [LF] N @ [LF]) = N @ [[]]"
  using assms
proof (induction N rule: induct_list012)
  case 1
  then show ?case by simp
next
  case (2 x)
  then have "LF \<notin> set x" "x = [] \<or> last x \<noteq> CR" by (auto simp: clean_def isWhiteSpace_CR)
  then show ?case by (simp add: splitLines_clean_LF)
next
  case (3 x y ys)
  then have "LF \<notin> set x" "x = [] \<or> last x \<noteq> CR" by (auto simp: clean_def isWhiteSpace_CR)
  then have "splitLines (x @ LF # joinWith [LF] (y # ys) @ [LF]) = x # splitLines (joinWith [LF] (y # ys) @ [LF])"
    by (rule splitLines_clean_LF)
  with 3 show ?case by simp
qed

lemma splitLines_wellTerminated:
  assumes "wellTerminated c"
  shows "splitLines c = butlast (splitLines c) @ [[]]"
proof (cases "c = []")
  case True
  then show ?thesis by simp
next
  case False
  with assms obtain a where c: "c = a @ [LF]"
    by (metis wellTerminated_def append_butlast_last_id)
  have "splitLines c = butlast (splitLines c) @ [last (splitLines c)]" by simp
  with c show ?thesis by (simp add: splitLines_last_LF)
qed

lemma splitLines_appendFile:
  assumes "wellTerminated c" "N \<noteq> []" "\<forall>u \<in> set N. clean u"
  shows "splitLines (c @ joinWith [LF] N @ [LF]) = butlast (splitLines c) @ N @ [[]]"
proof (cases "c = []")
  case True
  with assms show ?thesis by (simp add: splitLines_joinWith)
next
  case False
  with assms obtain a where c: "c = a @ [LF]"
    by (metis wellTerminated_def append_butlast_last_id)
  have "splitLines (a @ LF # (joinWith [LF] N @ [LF])) =
      butlast (splitLines (a @ [LF])) @ splitLines (joinWith [LF] N @ [LF])"
    by (rule splitLines_append_LF)
  with c assms show ?thesis by (simp add: splitLines_joinWith)
qed

lemma loadExisting_appendFile:
  assumes "wellTerminated c" "N \<noteq> []" "\<forall>u \<in> set N. clean u"
  shows "loadExisting (c @ joinWith [LF] N @ [LF]) = loadExisting c \<union> set N"
proof -
  let ?old = "butlast (splitLines c)"
  have old: "loadExisting c = {t. t \<in> trim ` set ?old \<and> t \<noteq> []}"
  proof -
    have "loadExisting c = {t. t \<in> trim ` set (?old @ [[]]) \<and> t \<noteq> []}"
      using splitLines_wellTerminated[OF assms(1)] by (simp add: loadExisting_def)
    then show ?thesis by auto
  qed
  have new: "{t. t \<in> trim ` set N \<and> t \<noteq> []} = set N"
    using assms(3) by (auto simp: trim_clean clean_def image_iff)
  have "loadExisting (c @ joinWith [LF] N @ [LF]) =
      {t. t \<in> trim ` set ?old \<and> t \<noteq> []} \<union> {t. t \<in> trim ` set N \<and> t \<noteq> []}"
    by (auto simp: loadExisting_def splitLines_appendFile[OF assms])
  then show ?thesis by (simp only: old new)
qed

section \<open>Runs\<close>

lemma set_newSet: "set (newSet seen xs) = set seen \<union> set xs"
  by (induction xs arbitrary: seen) auto

lemma distinct_newSet: "distinct seen \<Longrightarrow> distinct (newSet seen xs)"
  by (induction xs arbitrary: seen) auto

lemma messagesOf_set:
  "u \<in> set (messagesOf evs) \<Longrightarrow> \<exists>i m. (i, Message m) \<in> set evs \<and> u \<in> set m"
  by (induction evs rule: messagesOf.induct) auto

lemma messagesOf_mem:
  "(i, Message m) \<in> set evs \<Longrightarrow> set m \<subseteq> set (messagesOf evs)"
  by (induction evs rule: messagesOf.induct) auto

lemma deliveries_mem:
  "(i, ev) \<in> set (deliveries W cs fin) \<Longrightarrow> i < length cs \<and> ev \<in> set (eventsOf (W i) (cs ! i))"
  by (auto simp: deliveries_def)

lemma report_subseq:
  "Message m \<in> set (workerThread b chunk) \<Longrightarrow> subseq m chunk"
  by (simp add: workerThread_report checkLoop_filter split: if_splits)

lemma eventsOf_subseq:
  "Message m \<in> set (eventsOf f chunk) \<Longrightarrow> subseq m chunk"
  by (cases f) (auto dest: report_subseq)

lemma joinAll_Nil: "joinAll 0 evs = (AllResolved [], evs)"
  by (simp add: joinAll_def joinLoop_done)

lemma deliveries_Nil: "deliveries W [] fin = []"
  by (simp add: deliveries_def)

lemma runMain_spawned:
  "spawned (runMain e) = [] \<or> spawned (runMain e) = distribute (usernamesToCheck e) (numWorkers e)"
  by (simp add: runMain_def stopped_def processResults_def Let_def split: outcome.splits)

lemma runMain_appended:
  assumes "appended (runMain e) \<noteq> []"
  shows "\<exists>newly. fst (joinAll (length (distribute (usernamesToCheck e) (numWorkers e)))
            (deliveries (workers e) (distribute (usernamesToCheck e) (numWorkers e)) (finishing e)))
          = AllResolved newly \<and> appended (runMain e) = newSet [] newly \<and> appendOk e
          \<and> inputFile e \<noteq> None \<and> loopEnds (numWorkers e)"
  using assms
  by (auto simp: runMain_def stopped_def processResults_def Let_def
      split: outcome.splits if_splits)

lemma runMain_recordAfter:
  "recordAfter (runMain e) =
     (if appended (runMain e) = [] then recordFile e
      else appendFile (recordFile e) (joinWith [LF] (appended (runMain e)) @ [LF]))"
proof -
  have "newSet [] newly \<noteq> []" if "newly \<noteq> []" for newly :: "jsstring list"
    using that set_newSet [of "[]" newly] by (metis empty_set sup_bot.left_neutral set_empty)
  then show ?thesis
    by (simp add: runMain_def stopped_def processResults_def Let_def split: outcome.splits)
qed

lemma appended_source:
  assumes "u \<in> set (appended (runMain e))"
  shows "\<exists>i m. i < length (distribute (usernamesToCheck e) (numWorkers e))
     \<and> Message m \<in> set (eventsOf (workers e i) (distribute (usernamesToCheck e) (numWorkers e) ! i))
     \<and> u \<in> set m"
proof -
  let ?cs = "distribute (usernamesToCheck e) (numWorkers e)"
  let ?D = "deliveries (workers e) ?cs (finishing e)"
  from assms have "appended (runMain e) \<noteq> []" by auto
  from runMain_appended[OF this] obtain newly where
    j0: "fst (joinAll (length ?cs) ?D) = AllResolved newly" and a: "appended (runMain e) = newSet [] newly"
    by auto
  obtain rest where j: "joinAll (length ?cs) ?D = (AllResolved newly, rest)"
    using j0 by (cases "joinAll (length ?cs) ?D") simp
  from j have "joinLoop (replicate (length ?cs) Pending) [] ?D = (AllResolved newly, rest)"
    by (simp add: joinAll_def)
  from joinLoop_AllResolved[OF this] obtain pre where pre: "?D = pre @ rest" "newly = messagesOf pre"
    by auto
  from assms a have "u \<in> set newly" by (simp add: set_newSet)
  with pre obtain i m where "(i, Message m) \<in> set pre" "u \<in> set m"
    by (auto dest: messagesOf_set)
  with pre(1) have "(i, Message m) \<in> set ?D" by simp
  from deliveries_mem[OF this] \<open>u \<in> set m\<close> show ?thesis by blast
qed

lemma appended_subset_workSet: "set (appended (runMain e)) \<subseteq> set (usernamesToCheck e)"
proof
  fix u assume "u \<in> set (appended (runMain e))"
  from appended_source[OF this] obtain i m where
    i: "i < length (distribute (usernamesToCheck e) (numWorkers e))"
    and m: "Message m \<in> set (eventsOf (workers e i) (distribute (usernamesToCheck e) (numWorkers e) ! i))"
    and u: "u \<in> set m" by blast
  from m have "subseq m (distribute (usernamesToCheck e) (numWorkers e) ! i)" by (rule eventsOf_subseq)
  then have "set m \<subseteq> set (distribute (usernamesToCheck e) (numWorkers e) ! i)"
    by (auto dest: list_emb_set)
  moreover have "set (distribute (usernamesToCheck e) (numWorkers e) ! i) \<subseteq> set (usernamesToCheck e)"
    using nth_mem [OF i] by (rule distribute_subset)
  ultimately show "u \<in> set (usernamesToCheck e)" using u by blast
qed

text \<open>
  C2. The work set is the input list without the usernames of the known set, in the
  order of the input, and no chunk handed to a worker holds a username of the known set.
\<close>

theorem known_never_dispatched:
  "usernamesToCheck e =
     filter (\<lambda>u. u \<notin> existingAvailableUsernames e) (allUsernamesFromFile e)
 \<and> set (usernamesToCheck e) = set (allUsernamesFromFile e) - existingAvailableUsernames e
 \<and> subseq (usernamesToCheck e) (allUsernamesFromFile e)
 \<and> (\<forall>chunk \<in> set (spawned (runMain e)).
       set chunk \<subseteq> set (usernamesToCheck e) \<and> set chunk \<inter> existingAvailableUsernames e = {})"
proof -
  have w: "set (usernamesToCheck e) = set (allUsernamesFromFile e) - existingAvailableUsernames e"
    by (auto simp: usernamesToCheck_def)
  have "set chunk \<subseteq> set (usernamesToCheck e)" if "chunk \<in> set (spawned (runMain e))" for chunk
    using that runMain_spawned [of e] distribute_subset [of chunk "usernamesToCheck e" "numWorkers e"]
    by auto
  with w show ?thesis
    by (auto simp: usernamesToCheck_def)
qed

theorem known_never_dispatched_witness:
  "js ''bob'' \<in> set (allUsernamesFromFile exampleEnv)
 \<and> js ''bob'' \<in> existingAvailableUsernames exampleEnv
 \<and> js ''bob'' \<notin> set (usernamesToCheck exampleEnv)
 \<and> usernamesToCheck exampleEnv = [js ''alice'', js ''carol'', js ''dave'', js ''eve'']
 \<and> spawned (runMain exampleEnv) = [[js ''alice'', js ''carol''], [js ''dave'', js ''eve'']]"
proof -
  have a: "js ''bob'' \<in> set (allUsernamesFromFile exampleEnv)" by code_simp
  have k: "js ''bob'' \<in> existingAvailableUsernames exampleEnv" by code_simp
  have f: "filter (\<lambda>u. u \<notin> existingAvailableUsernames exampleEnv) (allUsernamesFromFile exampleEnv)
      = [js ''alice'', js ''carol'', js ''dave'', js ''eve'']" by code_simp
  have s: "spawned (runMain exampleEnv) = [[js ''alice'', js ''carol''], [js ''dave'', js ''eve'']]"
    by code_simp
  note t = known_never_dispatched [of exampleEnv]
  from t k have n: "js ''bob'' \<notin> set (usernamesToCheck exampleEnv)" by blast
  from t f have w: "usernamesToCheck exampleEnv = [js ''alice'', js ''carol'', js ''dave'', js ''eve'']"
    by simp
  from a k n w s show ?thesis by (intro conjI)
qed

text \<open>
  C9. The report a worker posts is a subsequence of the chunk it was given: every message
  the main thread receives comes from a spawned worker and is a subsequence of that
  worker's chunk. So every username written to the record file is a username of the
  input file.
\<close>

theorem reports_come_from_input:
  "(\<forall>report. Message report \<in> set (workerThread b chunk) \<longrightarrow> subseq report chunk)
 \<and> (\<forall>i report. (i, Message report) \<in> set (deliveries (workers e) chunks (finishing e)) \<longrightarrow>
       i < length chunks \<and> subseq report (chunks ! i))
 \<and> set (appended (runMain e)) \<subseteq> set (usernamesToCheck e)
 \<and> set (appended (runMain e)) \<subseteq> set (allUsernamesFromFile e)"
proof -
  have "set (usernamesToCheck e) \<subseteq> set (allUsernamesFromFile e)"
    by (auto simp: usernamesToCheck_def)
  with appended_subset_workSet [of e] show ?thesis
    by (auto dest: report_subseq deliveries_mem eventsOf_subseq)
qed

theorem reports_come_from_input_witness:
  "appended (runMain exampleEnv) = [js ''eve'', js ''carol'']
 \<and> js ''eve'' \<in> set (allUsernamesFromFile exampleEnv)
 \<and> js ''carol'' \<in> set (allUsernamesFromFile exampleEnv)"
proof -
  have a: "appended (runMain exampleEnv) = [js ''eve'', js ''carol'']" by code_simp
  note t = reports_come_from_input [of "okBrowser exampleSite" "[]" exampleEnv "[]"]
  from t have "set (appended (runMain exampleEnv)) \<subseteq> set (allUsernamesFromFile exampleEnv)"
    by blast
  with a show ?thesis by simp
qed

text \<open>
  C10, as the code has it. When the worker count is given as a non-empty fourth argument
  and \<^verbatim>\<open>parseInt\<close> makes NaN or a number below 1 of it (the negative infinity of a
  very long negative digit string included), no worker is spawned, so no
  username is probed, nothing is written, and the argument is not reported: the exit
  code is the one the reading of the input file decides, 0 when the file can be read and
  1 when it cannot.
\<close>

theorem invalid_worker_count:
  assumes "3 < length (argv e)" and "argv e ! 3 \<noteq> []"
    and "parseInt (argv e ! 3) = NaN \<or> parseInt (argv e ! 3) = NegInfinity
      \<or> (\<exists>k. parseInt (argv e ! 3) = Num k \<and> k \<le> 0)"
  shows "spawned (runMain e) = []
    \<and> appended (runMain e) = []
    \<and> recordAfter (runMain e) = recordFile e
    \<and> exitCode (runMain e) = Some (if inputFile e = None then 1 else 0)"
proof -
  from assms have nw: "numWorkers e = NaN \<or> numWorkers e = NegInfinity
      \<or> (\<exists>k. numWorkers e = Num k \<and> k \<le> 0)"
    by (simp add: numWorkers_def)
  then have "distribute (usernamesToCheck e) (numWorkers e) = []"
    by (auto simp: distribute_def counterValues_def)
  moreover from nw have "loopEnds (numWorkers e)"
    by (auto simp: loopEnds_def intro: order_trans)
  ultimately show ?thesis using assms(1)
    by (simp add: runMain_def stopped_def processResults_def joinAll_Nil deliveries_Nil)
qed

theorem invalid_worker_count_witness:
  "3 < length (argv zeroWorkersEnv) \<and> argv zeroWorkersEnv ! 3 = js ''0''
 \<and> parseInt (js ''0'') = Num 0
 \<and> parseInt (js ''many'') = NaN
 \<and> spawned (runMain zeroWorkersEnv) = []
 \<and> recordAfter (runMain zeroWorkersEnv) = Some (js ''bob\<newline>'')
 \<and> exitCode (runMain zeroWorkersEnv) = Some 0"
proof -
  have l: "3 < length (argv zeroWorkersEnv)" by code_simp
  have a: "argv zeroWorkersEnv ! 3 = js ''0''" by code_simp
  have ne: "argv zeroWorkersEnv ! 3 \<noteq> []" by code_simp
  have p: "parseInt (js ''0'') = Num 0" by code_simp
  have q: "parseInt (js ''many'') = NaN" by code_simp
  have r: "recordFile zeroWorkersEnv = Some (js ''bob\<newline>'')" by code_simp
  have i: "inputFile zeroWorkersEnv \<noteq> None" by code_simp
  from a p have h: "parseInt (argv zeroWorkersEnv ! 3) = NaN
      \<or> parseInt (argv zeroWorkersEnv ! 3) = NegInfinity
      \<or> (\<exists>k. parseInt (argv zeroWorkersEnv ! 3) = Num k \<and> k \<le> 0)" by simp
  note t = invalid_worker_count [OF l ne h]
  from t r i have "spawned (runMain zeroWorkersEnv) = []"
    "recordAfter (runMain zeroWorkersEnv) = Some (js ''bob\<newline>'')"
    "exitCode (runMain zeroWorkersEnv) = Some 0" by simp_all
  with l a p q show ?thesis by (intro conjI)
qed

text \<open>
  The claim fails for a worker count given as the empty string: \<^verbatim>\<open>parseInt\<close> makes
  NaN of it, but the test \<^verbatim>\<open>process.argv[3] ? ... : ...\<close> takes an empty string for a
  missing argument, and the run uses the number of processors, here four workers that
  probe and find two usernames.
\<close>

theorem empty_worker_count_counterexample:
  "3 < length (argv emptyArgEnv)
 \<and> parseInt (argv emptyArgEnv ! 3) = NaN
 \<and> numWorkers emptyArgEnv = Num 4
 \<and> spawned (runMain emptyArgEnv) = [[js ''alice''], [js ''carol''], [js ''dave''], [js ''eve'']]
 \<and> appended (runMain emptyArgEnv) = [js ''carol'', js ''eve'']
 \<and> recordAfter (runMain emptyArgEnv) = Some (js ''bob\<newline>carol\<newline>eve\<newline>'')"
  by code_simp

section \<open>The record file\<close>

lemma appended_clean: "u \<in> set (appended (runMain e)) \<Longrightarrow> clean u"
proof -
  assume u: "u \<in> set (appended (runMain e))"
  with appended_subset_workSet [of e] have "u \<in> set (allUsernamesFromFile e)"
    by (auto simp: usernamesToCheck_def)
  then show "clean u"
    by (auto simp: allUsernamesFromFile_def split: option.splits dest: readUsernames_clean)
qed

lemma content_appendFile: "content (appendFile file data) = content file @ data"
  by (simp add: content_def appendFile_def split: option.splits)

lemma content_recordAfter:
  "content (recordAfter (runMain e)) =
     content (recordFile e) @
       (if appended (runMain e) = [] then [] else joinWith [LF] (appended (runMain e)) @ [LF])"
  by (simp add: runMain_recordAfter content_appendFile)


lemma loadExisting_recordAfter:
  assumes wt: "wellTerminated (content (recordFile e))"
  shows "loadExisting (content (recordAfter (runMain e))) =
    loadExisting (content (recordFile e)) \<union> set (appended (runMain e))"
proof (cases "appended (runMain e) = []")
  case True
  then show ?thesis by (simp add: content_recordAfter)
next
  case False
  then show ?thesis
    using loadExisting_appendFile [OF wt, of "appended (runMain e)"] appended_clean [of _ e]
    by (simp add: content_recordAfter)
qed




section \<open>Two runs\<close>

lemma healthy_events:
  "healthy s f \<Longrightarrow> eventsOf f c = [Message (filter (\<lambda>u. checkOne s u = Available) c), Exit 0]"
  by (cases f) (auto simp: healthy_def workerThread_report checkLoop_filter)

lemma sameAnswers_report:
  "sameAnswers s f \<Longrightarrow> Message m \<in> set (eventsOf f c) \<Longrightarrow> u \<in> set m \<Longrightarrow>
     u \<in> set c \<and> checkOne s u = Available"
  by (cases f) (auto simp: sameAnswers_def workerThread_report checkLoop_filter split: if_splits)

lemma healthy_sameAnswers: "healthy s f \<Longrightarrow> sameAnswers s f"
  by (cases f) (auto simp: healthy_def sameAnswers_def)

lemma appended_available:
  assumes "\<forall>i. sameAnswers s (workers e i)" and "u \<in> set (appended (runMain e))"
  shows "checkOne s u = Available"
proof -
  from appended_source[OF assms(2)] obtain i m where
    "Message m \<in> set (eventsOf (workers e i) (distribute (usernamesToCheck e) (numWorkers e) ! i))"
    "u \<in> set m" by blast
  with assms(1) show ?thesis by (blast dest: sameAnswers_report)
qed

lemma blocks_prefix:
  "concat (map (\<lambda>i. [(i, Message (m i)), (i, Exit 0)]) ks) = pre @ rest \<Longrightarrow>
   (i, ev) \<in> set pre \<Longrightarrow> (i, Message (m i)) \<in> set pre"
proof (induction ks arbitrary: pre)
  case Nil
  then show ?case by simp
next
  case (Cons j ks)
  show ?case
  proof (cases pre)
    case Nil
    with Cons.prems show ?thesis by simp
  next
    case one: (Cons p pre1)
    show ?thesis
    proof (cases pre1)
      case Nil
      with one Cons.prems show ?thesis by auto
    next
      case two: (Cons p2 pre2)
      with one Cons.prems have p: "p = (j, Message (m j))" "p2 = (j, Exit 0)"
        and r: "concat (map (\<lambda>i. [(i, Message (m i)), (i, Exit 0)]) ks) = pre2 @ rest"
        by auto
      show ?thesis
      proof (cases "(i, ev) \<in> set pre2")
        case True
        from Cons.IH[OF r True] one two show ?thesis by simp
      next
        case False
        with Cons.prems(2) one two p show ?thesis by auto
      qed
    qed
  qed
qed

lemma healthy_deliveries:
  assumes "\<forall>i. healthy s (W i)"
  shows "deliveries W cs fin =
    concat (map (\<lambda>i. [(i, Message (filter (\<lambda>u. checkOne s u = Available) (cs ! i))), (i, Exit 0)])
           (remdups (filter (\<lambda>i. i < length cs) fin)))"
proof -
  have "eventsOf (W i) c = [Message (filter (\<lambda>u. checkOne s u = Available) c), Exit 0]" for i c
    using assms by (simp add: healthy_events)
  then show ?thesis by (simp add: deliveries_def)
qed

lemma healthy_no_Error:
  assumes "\<forall>i. healthy s (W i)"
  shows "(i, Error) \<notin> set (deliveries W cs fin)"
  by (auto simp: healthy_deliveries[OF assms])

lemma healthy_delivers:
  assumes "\<forall>i. healthy s (W i)" "i < length cs" "i \<in> set fin"
  shows "(i, Exit 0) \<in> set (deliveries W cs fin)"
  using assms(2,3) by (auto simp: healthy_deliveries[OF assms(1)])

lemma distribute_Num: "distribute xs nw \<noteq> [] \<Longrightarrow> \<exists>n. nw = Num n \<and> 1 \<le> n"
proof (cases nw)
  case NaN
  assume "distribute xs nw \<noteq> []"
  with NaN show ?thesis by (simp add: distribute_def counterValues_def)
next
  case (Num n)
  assume "distribute xs nw \<noteq> []"
  with Num have "\<not> n < 1" by (auto simp: distribute_def counterValues_def)
  with Num show ?thesis by simp
next
  case PosInfinity
  assume "distribute xs nw \<noteq> []"
  with PosInfinity show ?thesis by (simp add: distribute_PosInfinity)
next
  case NegInfinity
  assume "distribute xs nw \<noteq> []"
  with NegInfinity show ?thesis by (simp add: distribute_def counterValues_def)
qed

lemma healthy_run_appended:
  assumes h: "\<forall>i. healthy s (workers e i)"
    and fin: "everyWorkerFinishes e"
    and ok: "launchOk e" "appendOk e" "\<not> length (argv e) < 3" "inputFile e \<noteq> None"
    and n: "numWorkers e = Num n" "1 \<le> n" "n \<le> 2 ^ 53"
  shows "set (appended (runMain e)) = {u \<in> set (usernamesToCheck e). checkOne s u = Available}"
proof (cases "usernamesToCheck e = []")
  case True
  with appended_subset_workSet [of e] show ?thesis by simp
next
  case False
  let ?cs = "distribute (usernamesToCheck e) (numWorkers e)"
  let ?D = "deliveries (workers e) ?cs (finishing e)"
  let ?A = "{u \<in> set (usernamesToCheck e). checkOne s u = Available}"
  from False have all: "allUsernamesFromFile e \<noteq> []" by (auto simp: usernamesToCheck_def)
  have run: "runMain e =
     (case fst (joinAll (length ?cs) ?D) of
        AllResolved newly \<Rightarrow> processResults e ?cs newly
      | FirstRejected \<Rightarrow>
          stopped e (if list_all (\<lambda>i. i \<in> set (finishing e)) [0..<length ?cs] then Some 0 else None) ?cs
      | NeverSettled \<Rightarrow> stopped e None ?cs)"
  proof -
    from ok obtain body where "inputFile e = Some body" by auto
    moreover from n have "loopEnds (numWorkers e)" by (simp add: loopEnds_def)
    ultimately show ?thesis using False all ok by (simp add: runMain_def Let_def)
  qed
  obtain out rest where j: "joinLoop (replicate (length ?cs) Pending) [] ?D = (out, rest)"
    by (cases "joinLoop (replicate (length ?cs) Pending) [] ?D")
  have cover: "(i, Exit 0) \<in> set ?D" if "i < length ?cs" for i
    using that fin by (intro healthy_delivers[OF h]) (auto simp: everyWorkerFinishes_def list_all_iff)
  show ?thesis
  proof (cases out)
    case FirstRejected
    with j have "joinLoop (replicate (length ?cs) Pending) [] ?D = (FirstRejected, rest)" by simp
    from joinLoop_FirstRejected [OF this] obtain pre i where "?D = pre @ (i, Error) # rest" by blast
    then have "(i, Error) \<in> set ?D" by simp
    with healthy_no_Error[OF h] show ?thesis by blast
  next
    case NeverSettled
    with j have "joinLoop (replicate (length ?cs) Pending) [] ?D = (NeverSettled, rest)" by simp
    from joinLoop_NeverSettled [OF this] obtain i where "i < length ?cs" "\<forall>ev. (i, ev) \<notin> set ?D"
      by auto
    with cover show ?thesis by blast
  next
    case (AllResolved newly)
    with j have "joinLoop (replicate (length ?cs) Pending) [] ?D = (AllResolved newly, rest)" by simp
    from joinLoop_AllResolved [OF this] obtain pre where pre: "?D = pre @ rest" "newly = messagesOf pre"
      and ev: "\<forall>i<length ?cs. \<exists>ev. (i, ev) \<in> set pre \<and> ev \<noteq> Error"
      by auto
    have sub: "set newly \<subseteq> ?A"
    proof
      fix u assume "u \<in> set newly"
      with pre(2) have "u \<in> set (messagesOf pre)" by simp
      from messagesOf_set [OF this] obtain i m where "(i, Message m) \<in> set pre" "u \<in> set m"
        by blast
      with pre(1) have im: "(i, Message m) \<in> set ?D" "u \<in> set m" by simp_all
      from deliveries_mem[OF im(1)] have i: "i < length ?cs"
        and m: "Message m \<in> set (eventsOf (workers e i) (?cs ! i))" by auto
      from h have "sameAnswers s (workers e i)" by (simp add: healthy_sameAnswers)
      from sameAnswers_report[OF this m im(2)] have "u \<in> set (?cs ! i)" "checkOne s u = Available"
        by auto
      moreover have "set (?cs ! i) \<subseteq> set (usernamesToCheck e)"
        using nth_mem [OF i] by (rule distribute_subset)
      ultimately show "u \<in> ?A" by auto
    qed
    have sup: "?A \<subseteq> set newly"
    proof
      fix u assume "u \<in> ?A"
      then have u: "u \<in> set (usernamesToCheck e)" "checkOne s u = Available" by auto
      from n have "concat ?cs = usernamesToCheck e" by (simp add: concat_distribute)
      with u(1) have "u \<in> set (concat ?cs)" by simp
      then obtain c where "c \<in> set ?cs" "u \<in> set c" by auto
      then obtain i where i: "i < length ?cs" "u \<in> set (?cs ! i)" by (auto simp: in_set_conv_nth)
      with ev obtain ev0 where "(i, ev0) \<in> set pre" by blast
      with pre(1) have "(i, Message (filter (\<lambda>u. checkOne s u = Available) (?cs ! i))) \<in> set pre"
        unfolding healthy_deliveries[OF h] by (rule blocks_prefix)
      from messagesOf_mem[OF this] pre(2) i(2) u(2) show "u \<in> set newly" by auto
    qed
    from sub sup have eq: "set newly = ?A" by blast
    from j AllResolved have "fst (joinAll (length ?cs) ?D) = AllResolved newly"
      by (simp add: joinAll_def)
    with run have r: "runMain e = processResults e ?cs newly" by simp
    show ?thesis
    proof (cases "newly = []")
      case True
      with r eq show ?thesis by (simp add: processResults_def stopped_def)
    next
      case False
      with r ok eq show ?thesis by (simp add: processResults_def set_newSet Let_def)
    qed
  qed
qed

lemma loadExisting_Nil: "loadExisting [] = {}"
  by (simp add: loadExisting_def)

lemma existing_readable:
  "recordReadable e \<Longrightarrow> existingAvailableUsernames e = loadExisting (content (recordFile e))"
  by (simp add: existingAvailableUsernames_def content_def loadExisting_Nil split: option.splits)

lemma existing_subset:
  "existingAvailableUsernames e \<subseteq> loadExisting (content (recordFile e))"
  by (simp add: existingAvailableUsernames_def content_def split: option.splits)

lemma runMain_appended_argv: "appended (runMain e) \<noteq> [] \<Longrightarrow> \<not> length (argv e) < 3"
  by (auto simp: runMain_def stopped_def)

text \<open>
  C6, as the code has it. Take a first run in which the browser starts, every spawned
  worker runs to the end with a working connection, and the append succeeds, on a record
  file that is absent, empty or ends with a line feed. A second run with the same command
  line and input file, reading the record file the first run left, with the service
  answering as before, writes nothing: every username it could find was either known
  before the first run or found by it.
\<close>

theorem second_run_finds_nothing:
  assumes first: "\<forall>i. healthy s (workers e1 i)" "everyWorkerFinishes e1" "launchOk e1" "appendOk e1"
    and terminated: "wellTerminated (content (recordFile e1))"
    and same: "argv e2 = argv e1" "cpus e2 = cpus e1" "inputFile e2 = inputFile e1"
    and reload: "recordFile e2 = recordAfter (runMain e1)" "recordReadable e2"
    and unchanged: "\<forall>i. sameAnswers s (workers e2 i)"
  shows "appended (runMain e2) = []"
proof (rule ccontr)
  assume ne: "appended (runMain e2) \<noteq> []"
  then obtain u where u: "u \<in> set (appended (runMain e2))"
    by (cases "appended (runMain e2)") auto
  from appended_available [OF unchanged u] have av: "checkOne s u = Available" .
  from u appended_subset_workSet [of e2] have "u \<in> set (usernamesToCheck e2)" by blast
  then have all2: "u \<in> set (allUsernamesFromFile e2)" and k2: "u \<notin> existingAvailableUsernames e2"
    by (auto simp: usernamesToCheck_def)
  from all2 same have all1: "u \<in> set (allUsernamesFromFile e1)"
    by (simp add: allUsernamesFromFile_def)
  from same have nw: "numWorkers e1 = numWorkers e2" by (simp add: numWorkers_def)
  from appended_source [OF u] have "distribute (usernamesToCheck e2) (numWorkers e2) \<noteq> []"
    by auto
  from distribute_Num [OF this] nw obtain n where n: "numWorkers e1 = Num n" "1 \<le> n" by auto
  from runMain_appended [OF ne] have "loopEnds (numWorkers e2)" by auto
  moreover from nw n have "numWorkers e2 = Num n" by simp
  ultimately have bound: "n \<le> 2 ^ 53" by (simp add: loopEnds_def)
  from runMain_appended [OF ne] same have inp: "inputFile e1 \<noteq> None" by auto
  from runMain_appended_argv [OF ne] same have len: "\<not> length (argv e1) < 3" by simp
  from healthy_run_appended [OF first len inp n bound]
  have found: "set (appended (runMain e1)) = {u \<in> set (usernamesToCheck e1). checkOne s u = Available}" .
  from reload have "existingAvailableUsernames e2 = loadExisting (content (recordAfter (runMain e1)))"
    by (simp add: existing_readable)
  with loadExisting_recordAfter [OF terminated]
  have known2: "existingAvailableUsernames e2 =
      loadExisting (content (recordFile e1)) \<union> set (appended (runMain e1))" by simp
  show False
  proof (cases "u \<in> existingAvailableUsernames e1")
    case True
    with existing_subset [of e1] known2 k2 show False by blast
  next
    case False
    with all1 have "u \<in> set (usernamesToCheck e1)" by (simp add: usernamesToCheck_def)
    with av found have "u \<in> set (appended (runMain e1))" by simp
    with known2 k2 show False by blast
  qed
qed

theorem second_run_finds_nothing_witness:
  "everyWorkerFinishes exampleEnv
 \<and> wellTerminated (content (recordFile exampleEnv))
 \<and> appended (runMain exampleEnv) = [js ''eve'', js ''carol'']
 \<and> recordFile (rerun exampleEnv) = Some (js ''bob\<newline>eve\<newline>carol\<newline>'')
 \<and> appended (runMain (rerun exampleEnv)) = []"
proof -
  have h: "\<forall>i. healthy exampleSite (workers exampleEnv i)"
    by (simp add: exampleEnv_def healthy_def okBrowser_def)
  have f: "everyWorkerFinishes exampleEnv" by code_simp
  have l: "launchOk exampleEnv" by (simp add: exampleEnv_def)
  have a: "appendOk exampleEnv" by (simp add: exampleEnv_def)
  have t: "wellTerminated (content (recordFile exampleEnv))" by code_simp
  have s1: "argv (rerun exampleEnv) = argv exampleEnv" by (simp add: rerun_def)
  have s2: "cpus (rerun exampleEnv) = cpus exampleEnv" by (simp add: rerun_def)
  have s3: "inputFile (rerun exampleEnv) = inputFile exampleEnv" by (simp add: rerun_def)
  have r1: "recordFile (rerun exampleEnv) = recordAfter (runMain exampleEnv)" by (simp add: rerun_def)
  have r2: "recordReadable (rerun exampleEnv)" by (simp add: rerun_def)
  have u: "\<forall>i. sameAnswers exampleSite (workers (rerun exampleEnv) i)"
    by (simp add: rerun_def exampleEnv_def sameAnswers_def okBrowser_def)
  have x: "appended (runMain exampleEnv) = [js ''eve'', js ''carol'']" by code_simp
  have y: "recordAfter (runMain exampleEnv) = Some (js ''bob\<newline>eve\<newline>carol\<newline>'')" by code_simp
  from r1 y have z: "recordFile (rerun exampleEnv) = Some (js ''bob\<newline>eve\<newline>carol\<newline>'')"
    by (simp only:)
  note second_run_finds_nothing [OF h f l a t s1 s2 s3 r1 r2 u]
  with f t x z show ?thesis by (intro conjI)
qed

text \<open>
  The claim fails on a record file whose last line has no line feed. The first run finds
  \<^verbatim>\<open>eve\<close> and \<^verbatim>\<open>carol\<close> and appends them, the append succeeds, and \<^verbatim>\<open>eve\<close> lands
  on the line of \<^verbatim>\<open>bob\<close>; the second run, same input and same answers, does not find
  \<^verbatim>\<open>eve\<close> in the record file, probes it again and appends it again.
\<close>

theorem second_run_finds_again_counterexample:
  "everyWorkerFinishes unterminatedEnv
 \<and> launchOk unterminatedEnv \<and> appendOk unterminatedEnv
 \<and> recordFile unterminatedEnv = Some (js ''bob'')
 \<and> appended (runMain unterminatedEnv) = [js ''eve'', js ''carol'']
 \<and> recordAfter (runMain unterminatedEnv) = Some (js ''bobeve\<newline>carol\<newline>'')
 \<and> inputFile (rerun unterminatedEnv) = inputFile unterminatedEnv
 \<and> argv (rerun unterminatedEnv) = argv unterminatedEnv
 \<and> usernamesToCheck (rerun unterminatedEnv) = [js ''alice'', js ''bob'', js ''dave'', js ''eve'']
 \<and> appended (runMain (rerun unterminatedEnv)) = [js ''eve'']"
  by code_simp

text \<open>
  The first run has to have probed every username of its work set. Here the record file
  ends with a line feed and the answers do not change, but the second worker of the
  first run cannot connect and reports nothing; the first run appends what the first
  worker found, and the second run, in which the chunks fall differently, finds a
  username the first run never probed.
\<close>

lemma second_run_after_failed_worker:
  "wellTerminated (content (recordFile failedWorkerEnv))
 \<and> spawned (runMain failedWorkerEnv) = [[js ''carol'', js ''zed''], [js ''eve'', js ''dave'']]
 \<and> appended (runMain failedWorkerEnv) = [js ''carol'']
 \<and> recordAfter (runMain failedWorkerEnv) = Some (js ''bob\<newline>carol\<newline>'')
 \<and> spawned (runMain (rerun failedWorkerEnv)) = [[js ''zed'', js ''eve''], [js ''dave'']]
 \<and> appended (runMain (rerun failedWorkerEnv)) = [js ''eve'']"
  by code_simp

end
